theory Spec2Isabelle
  imports Main
begin

section \<open>Table-driven test helper \<^verbatim>\<open>tbl\<close>: the data model\<close>

text \<open>
  The package keeps its test cases as \<^verbatim>\<open>reflect.Value\<close>s and compares
  \<^verbatim>\<open>reflect.Type\<close>s for identity. A type token is a \<open>gtype\<close>: the predeclared
  \<^verbatim>\<open>int\<close>, \<^verbatim>\<open>bool\<close> and \<^verbatim>\<open>string\<close>, a declared (named) type, and a function
  type with the lists of its parameter and result types (what \<^verbatim>\<open>NumIn\<close>, \<^verbatim>\<open>In\<close>,
  \<^verbatim>\<open>NumOut\<close> and \<^verbatim>\<open>Out\<close> read), a slice type, and the empty interface
  \<^verbatim>\<open>interface{}\<close>, which is the type of parameters and of slice elements only: no
  value has it as its dynamic type. A declared type is a struct type here; it is never
  identical to \<^verbatim>\<open>int\<close> or \<^verbatim>\<open>bool\<close>.
\<close>

datatype gtype =
    TInt
  | TBool
  | TString
  | TNamed string
  | TFunc "gtype list" "gtype list"
  | TSlice gtype
  | TInterface

text \<open>
  Go values that can be test cases: integers (the 64-bit \<^verbatim>\<open>int\<close>), booleans, strings,
  values of a declared type (its name and fields) and slices (the type of the elements
  and the elements). \<open>TypeOf\<close> is the dynamic type.
\<close>

datatype gval =
    VInt int
  | VBool bool
  | VString string
  | VNamed string "gval list"
  | VSlice gtype "gval list"

fun TypeOf :: "gval \<Rightarrow> gtype" where
  "TypeOf (VInt i) = TInt"
| "TypeOf (VBool b) = TBool"
| "TypeOf (VString s) = TString"
| "TypeOf (VNamed n fs) = TNamed n"
| "TypeOf (VSlice t vs) = TSlice t"

text \<open>
  An \<^verbatim>\<open>interface{}\<close> holding a test case is \<open>None\<close> for the untyped nil and
  \<open>Some v\<close> otherwise. \<^verbatim>\<open>reflect.ValueOf\<close> gives the zero \<^verbatim>\<open>Value\<close>, of kind
  \<^verbatim>\<open>Invalid\<close>, exactly for the untyped nil.
\<close>

datatype rvalue = Invalid | Valid gval

fun ValueOf :: "gval option \<Rightarrow> rvalue" where
  "ValueOf None = Invalid"
| "ValueOf (Some v) = Valid v"

text \<open>The struct \<^verbatim>\<open>Test\<close>; a nil \<^verbatim>\<open>vType\<close> is \<open>None\<close>.\<close>

record Test =
  cases :: "rvalue list"
  vType :: "gtype option"
  InOrder :: bool

text \<open>
  Every abort of the package is a value of \<open>error\<close>: one constructor for each
  \<^verbatim>\<open>panicF\<close> call, carrying what its message prints, and one for each panic of the
  runtime and of package \<^verbatim>\<open>reflect\<close>: \<^verbatim>\<open>Type\<close> called on the zero \<^verbatim>\<open>Value\<close>, a
  slice index out of range, and the panics of \<^verbatim>\<open>Call\<close> (the value is not a function,
  the function is nil, an argument cannot be used as the type of its parameter).
\<close>

datatype error =
    NotAValidTestCase nat
  | WrongCaseType gtype nat gtype
  | TypeOfZeroValue
  | NotAFunction
  | IncorrectParameter gtype "gtype option"
  | IncorrectParameterOne gtype
  | IncorrectParameterTwo gtype "gtype option"
  | IncorrectNumberOfParameters
  | OutNotBoolean gtype
  | IncorrectNumberOfOuts
  | IndexOutOfRange int
  | CallOfNonFunction
  | CallOfNilFunction
  | CallCannotUseArgument

section \<open>The run order flag\<close>

text \<open>
  \<^verbatim>\<open>strings.Split(s, ",")\<close> of the Go standard library: the substrings between the
  commas, one more than there are commas; the empty string gives one empty substring.
\<close>

fun Split :: "string \<Rightarrow> string list" where
  "Split [] = [[]]"
| "Split (c # cs) =
     (if c = CHR '','' then [] # Split cs
      else (case Split cs of
              [] \<Rightarrow> [[c]]
            | t # ts \<Rightarrow> (c # t) # ts))"

text \<open>
  \<^verbatim>\<open>strconv.ParseInt(s, 10, 64)\<close> of the Go standard library, with its two errors.
  \<^verbatim>\<open>ParseUint\<close> reads decimal digits only (base 10 takes no underscore and no
  letter), and reports a range error as soon as the next digit would leave 64 bits;
  the \<^verbatim>\<open>uint64\<close> accumulator is a \<open>nat\<close> with the overflow tests written out.
\<close>

datatype numError = ErrSyntax | ErrRange

definition isDigit :: "char \<Rightarrow> bool" where
  "isDigit c = (of_char (CHR ''0'') \<le> (of_char c :: nat) \<and> (of_char c :: nat) \<le> of_char (CHR ''9''))"

definition digitVal :: "char \<Rightarrow> nat" where
  "digitVal c = of_char c - of_char (CHR ''0'')"

definition maxUint64 :: nat where
  "maxUint64 = 2 ^ 64 - 1"

fun parseDigits :: "string \<Rightarrow> nat \<Rightarrow> numError + nat" where
  "parseDigits [] n = Inr n"
| "parseDigits (c # cs) n =
     (if \<not> isDigit c then Inl ErrSyntax
      else if n \<ge> maxUint64 div 10 + 1 then Inl ErrRange
      else if n * 10 + digitVal c > maxUint64 then Inl ErrRange
      else parseDigits cs (n * 10 + digitVal c))"

definition ParseUint :: "string \<Rightarrow> numError + nat" where
  "ParseUint s = (if s = [] then Inl ErrSyntax else parseDigits s 0)"

definition ParseInt :: "string \<Rightarrow> numError + int" where
  "ParseInt s =
     (if s = [] then Inl ErrSyntax
      else
        let neg = (hd s = CHR ''-'');
            s1 = (if hd s = CHR ''+'' \<or> hd s = CHR ''-'' then tl s else s)
        in (case ParseUint s1 of
              Inl ErrSyntax \<Rightarrow> Inl ErrSyntax
            | Inl ErrRange \<Rightarrow> Inl ErrRange
            | Inr un \<Rightarrow>
                if \<not> neg \<and> un \<ge> 2 ^ 63 then Inl ErrRange
                else if neg \<and> un > 2 ^ 63 then Inl ErrRange
                else Inr (if neg then - int un else int un)))"

text \<open>
  What \<^verbatim>\<open>Run\<close> reads from outside: the flag \<^verbatim>\<open>tblTest.RunOrder\<close> (the pointer
  \<^verbatim>\<open>runorder\<close>, \<open>None\<close> when nil), and the slice that \<^verbatim>\<open>rand.Perm(n)\<close> returns in
  this run, as a function of \<open>n\<close>.
\<close>

record env =
  runorder :: "string option"
  randPerm :: "nat \<Rightarrow> int list"

text \<open>
  The loop of \<^verbatim>\<open>runOrder\<close> over the tokens: a token that parses is appended
  (\<^verbatim>\<open>int(i)\<close> is the identity on a 64-bit platform), any other is passed over.
\<close>

fun runOrderLoop :: "string list \<Rightarrow> int list \<Rightarrow> int list" where
  "runOrderLoop [] idx = idx"
| "runOrderLoop (s # ss) idx =
     (case ParseInt s of
        Inr i \<Rightarrow> runOrderLoop ss (idx @ [i])
      | Inl err \<Rightarrow> runOrderLoop ss idx)"

definition runOrder :: "env \<Rightarrow> int list \<times> bool" where
  "runOrder e =
     (case runorder e of
        None \<Rightarrow> ([], False)
      | Some str \<Rightarrow>
          if str = [] then ([], False)
          else (let idx = runOrderLoop (Split str) [] in (idx, length idx > 0)))"

section \<open>Building the collection\<close>

text \<open>
  The loop of \<^verbatim>\<open>Cases\<close>, with the index \<open>i\<close> of the element at hand. The first
  element fixes \<^verbatim>\<open>vType\<close>; every element is appended to \<^verbatim>\<open>cases\<close>; the first
  invalid or differently typed element aborts.
\<close>

fun CasesLoop :: "Test \<Rightarrow> nat \<Rightarrow> gval option list \<Rightarrow> error + Test" where
  "CasesLoop tc i [] = Inr tc"
| "CasesLoop tc i (tcase # rest) =
     (case ValueOf tcase of
        Invalid \<Rightarrow> Inl (NotAValidTestCase i)
      | Valid v \<Rightarrow>
          (case vType tc of
             None \<Rightarrow>
               CasesLoop (tc\<lparr>vType := Some (TypeOf v), cases := cases tc @ [Valid v]\<rparr>) (Suc i) rest
           | Some t \<Rightarrow>
               if TypeOf v \<noteq> t then Inl (WrongCaseType t i (TypeOf v))
               else CasesLoop (tc\<lparr>cases := cases tc @ [Valid v]\<rparr>) (Suc i) rest))"

definition Cases :: "gval option list \<Rightarrow> error + Test" where
  "Cases testcases = CasesLoop \<lparr>cases = [], vType = None, InOrder = False\<rparr> 0 testcases"

section \<open>Running the test function\<close>

text \<open>
  The argument of \<^verbatim>\<open>Run\<close> is an \<^verbatim>\<open>interface{}\<close>: the untyped nil; a value that is
  not a function; a function that is neither nil nor variadic, with its parameter
  types, its result types and its behaviour; a nil value of a function type, with the
  parameter and result types of the type; or a variadic function \<^verbatim>\<open>func(a..., v ...E)\<close>,
  with the types of its fixed parameters, the element type \<open>E\<close>, its result types and
  its behaviour. The behaviour takes the parameters of one call and the state \<open>'s\<close>
  the function works on (whatever it closes over), and gives the new state and a
  boolean: the result of a function that returns a \<^verbatim>\<open>bool\<close>, and of no meaning for
  one that returns nothing, where \<^verbatim>\<open>runTest\<close> does not read it. A function that
  panics in its own body is outside this model.
\<close>

datatype 's argument =
    NilArg
  | Data gval
  | Func "gtype list" "gtype list" "rvalue list \<Rightarrow> 's \<Rightarrow> bool \<times> 's"
  | NilFunc "gtype list" "gtype list"
  | VariadicFunc "gtype list" gtype "gtype list" "rvalue list \<Rightarrow> 's \<Rightarrow> bool \<times> 's"

text \<open>
  The parameter types and the result types of the type of a function value, as
  \<^verbatim>\<open>In\<close> and \<^verbatim>\<open>Out\<close> give them: the last parameter of a variadic function is the
  slice of its element type.
\<close>

fun fnIn :: "'s argument \<Rightarrow> gtype list" where
  "fnIn (Func ins outs fn) = ins"
| "fnIn (NilFunc ins outs) = ins"
| "fnIn (VariadicFunc fixed elem outs fn) = fixed @ [TSlice elem]"
| "fnIn NilArg = []"
| "fnIn (Data v) = []"

fun fnOut :: "'s argument \<Rightarrow> gtype list" where
  "fnOut (Func ins outs fn) = outs"
| "fnOut (NilFunc ins outs) = outs"
| "fnOut (VariadicFunc fixed elem outs fn) = outs"
| "fnOut NilArg = []"
| "fnOut (Data v) = []"

text \<open>
  Assignability between the types above: identical types, or any type to the empty
  interface. (The rule for identical underlying types never applies here: the
  declared types are structs, and no struct type literal is among the types.)
\<close>

definition AssignableTo :: "gtype \<Rightarrow> gtype \<Rightarrow> bool" where
  "AssignableTo v t = (v = t \<or> t = TInterface)"

fun assignableValue :: "gtype \<Rightarrow> rvalue \<Rightarrow> bool" where
  "assignableValue t Invalid = False"
| "assignableValue t (Valid v) = AssignableTo (TypeOf v) t"

text \<open>
  \<^verbatim>\<open>fn.Call(params)\<close> of package \<^verbatim>\<open>reflect\<close>, followed by the reading of the
  boolean result. A nil function panics. A variadic function gets its fixed parameters
  as they are and the remaining arguments packed in a new slice, and \<^verbatim>\<open>Call\<close> panics
  when one of these (the zero \<^verbatim>\<open>Value\<close> included) cannot be used as the element
  type. For a function that is neither nil nor variadic, \<^verbatim>\<open>Call\<close> enters the
  function: its tests of the number and of the types of the arguments repeat what the
  checks of \<^verbatim>\<open>Run\<close> have established for a collection that \<^verbatim>\<open>Cases\<close> built, whose
  cases are valid values of type \<^verbatim>\<open>vType\<close>.
\<close>

fun Call :: "'s argument \<Rightarrow> rvalue list \<Rightarrow> 's \<Rightarrow> error + bool \<times> 's" where
  "Call NilArg ps s = Inl CallOfNonFunction"
| "Call (Data v) ps s = Inl CallOfNonFunction"
| "Call (NilFunc ins outs) ps s = Inl CallOfNilFunction"
| "Call (Func ins outs fn) ps s = Inr (fn ps s)"
| "Call (VariadicFunc fixed elem outs fn) ps s =
     (if list_all (assignableValue elem) (drop (length fixed) ps) then
        Inr (fn (take (length fixed) ps @
                   [Valid (VSlice elem
                      (concat (map (\<lambda>x. case x of Invalid \<Rightarrow> [] | Valid v \<Rightarrow> [v])
                         (drop (length fixed) ps))))]) s)
      else Inl CallCannotUseArgument)"

text \<open>The slice \<^verbatim>\<open>params\<close> that \<^verbatim>\<open>runTest\<close> builds.\<close>

definition params :: "bool \<Rightarrow> int \<Rightarrow> rvalue \<Rightarrow> rvalue list" where
  "params tp idx testcase = (if tp then [Valid (VInt idx)] else []) @ [testcase]"

text \<open>
  \<^verbatim>\<open>runTest\<close> on the pair of the calls made so far (the parameter list of each call
  that entered the function, in order) and the state of the function: it calls the
  function, records the call and returns whether to go on, or it panics with
  \<^verbatim>\<open>Call\<close>.
\<close>

definition runTest ::
  "'s argument \<Rightarrow> int \<Rightarrow> rvalue \<Rightarrow> bool \<Rightarrow> bool \<Rightarrow>
   rvalue list list \<times> 's \<Rightarrow> error + bool \<times> rvalue list list \<times> 's" where
  "runTest fn idx testcase tp r st =
     (case Call fn (params tp idx testcase) (snd st) of
        Inl err \<Rightarrow> Inl err
      | Inr (res, s') \<Rightarrow>
          Inr ((if r then res else True), (fst st @ [params tp idx testcase], s')))"

text \<open>The two parameter checks and the result check of \<^verbatim>\<open>Run\<close>, in its order.\<close>

definition checkIn :: "gtype option \<Rightarrow> gtype list \<Rightarrow> error + bool" where
  "checkIn vt ins =
     (if length ins = 1 then
        (if Some (ins ! 0) \<noteq> vt then Inl (IncorrectParameter (ins ! 0) vt) else Inr False)
      else if length ins = 2 then
        (if ins ! 0 \<noteq> TInt then Inl (IncorrectParameterOne (ins ! 0))
         else if Some (ins ! 1) \<noteq> vt then Inl (IncorrectParameterTwo (ins ! 0) vt)
         else Inr True)
      else Inl IncorrectNumberOfParameters)"

definition checkOut :: "gtype list \<Rightarrow> error + bool" where
  "checkOut outs =
     (if length outs = 0 then Inr False
      else if length outs = 1 then
        (if outs ! 0 \<noteq> TBool then Inl (OutNotBoolean (outs ! 0)) else Inr True)
      else Inl IncorrectNumberOfOuts)"

text \<open>
  The three loops of \<^verbatim>\<open>Run\<close>. Each carries \<^verbatim>\<open>count\<close> and the pair of calls and
  state, stops after the call that returns false, and aborts when \<^verbatim>\<open>runTest\<close>
  panics.
\<close>

fun loopOverride ::
  "'s argument \<Rightarrow> rvalue list \<Rightarrow> bool \<Rightarrow> bool \<Rightarrow> int list \<Rightarrow> int \<Rightarrow>
   rvalue list list \<times> 's \<Rightarrow> (error + int) \<times> rvalue list list \<times> 's" where
  "loopOverride fn cs tp r [] count st = (Inr count, st)"
| "loopOverride fn cs tp r (idx # idxs) count st =
     (if idx < 0 \<or> idx \<ge> int (length cs) then loopOverride fn cs tp r idxs count st
      else (case runTest fn idx (cs ! nat idx) tp r st of
              Inl err \<Rightarrow> (Inl err, st)
            | Inr (ok, st') \<Rightarrow>
                if \<not> ok then (Inr (count + 1), st')
                else loopOverride fn cs tp r idxs (count + 1) st'))"

fun loopInOrder ::
  "'s argument \<Rightarrow> bool \<Rightarrow> bool \<Rightarrow> nat \<Rightarrow> rvalue list \<Rightarrow> int \<Rightarrow>
   rvalue list list \<times> 's \<Rightarrow> (error + int) \<times> rvalue list list \<times> 's" where
  "loopInOrder fn tp r idx [] count st = (Inr count, st)"
| "loopInOrder fn tp r idx (testcase # rest) count st =
     (case runTest fn (int idx) testcase tp r st of
        Inl err \<Rightarrow> (Inl err, st)
      | Inr (ok, st') \<Rightarrow>
          if \<not> ok then (Inr (count + 1), st')
          else loopInOrder fn tp r (Suc idx) rest (count + 1) st')"

text \<open>
  In the last loop \<^verbatim>\<open>tc.cases[idx]\<close> is not guarded: an index outside the slice
  is a panic of the runtime.
\<close>

fun loopRandom ::
  "'s argument \<Rightarrow> rvalue list \<Rightarrow> bool \<Rightarrow> bool \<Rightarrow> int list \<Rightarrow> int \<Rightarrow>
   rvalue list list \<times> 's \<Rightarrow> (error + int) \<times> rvalue list list \<times> 's" where
  "loopRandom fn cs tp r [] count st = (Inr count, st)"
| "loopRandom fn cs tp r (idx # list) count st =
     (if idx < 0 \<or> idx \<ge> int (length cs) then (Inl (IndexOutOfRange idx), st)
      else (case runTest fn idx (cs ! nat idx) tp r st of
              Inl err \<Rightarrow> (Inl err, st)
            | Inr (ok, st') \<Rightarrow>
                if \<not> ok then (Inr (count + 1), st')
                else loopRandom fn cs tp r list (count + 1) st'))"

text \<open>
  \<^verbatim>\<open>Run\<close>, from the state \<open>s\<close> of the function: the count it returns or the abort,
  with the calls it made and the state it left. The first two equations are the
  panic of \<^verbatim>\<open>fn.Type()\<close> on the untyped nil and the test of the kind; the third is
  for every value of a function type.
\<close>

fun Run :: "env \<Rightarrow> Test \<Rightarrow> 's argument \<Rightarrow> 's \<Rightarrow> (error + int) \<times> rvalue list list \<times> 's" where
  "Run e tc NilArg s = (Inl TypeOfZeroValue, [], s)"
| "Run e tc (Data v) s = (Inl NotAFunction, [], s)"
| "Run e tc fn s =
     (case checkIn (vType tc) (fnIn fn) of
        Inl err \<Rightarrow> (Inl err, [], s)
      | Inr twoInParams \<Rightarrow>
          (case checkOut (fnOut fn) of
             Inl err \<Rightarrow> (Inl err, [], s)
           | Inr hasOutParam \<Rightarrow>
               if length (cases tc) = 0 then (Inr 0, [], s)
               else (case runOrder e of
                       (idxs, True) \<Rightarrow>
                         loopOverride fn (cases tc) twoInParams hasOutParam idxs 0 ([], s)
                     | (idxs, False) \<Rightarrow>
                         if InOrder tc then
                           loopInOrder fn twoInParams hasOutParam 0 (cases tc) 0 ([], s)
                         else
                           loopRandom fn (cases tc) twoInParams hasOutParam
                             (randPerm e (length (cases tc))) 0 ([], s))))"

section \<open>Vocabulary of the properties\<close>

text \<open>An index that \<^verbatim>\<open>Run\<close> does not skip: \<^verbatim>\<open>idx < 0 || idx >= len(tc.cases)\<close> is false.\<close>

definition inRange :: "nat \<Rightarrow> int \<Rightarrow> bool" where
  "inRange n idx = (0 \<le> idx \<and> idx < int n)"

text \<open>The parameter lists of the calls for a sequence of indices into the cases.\<close>

definition callsFor :: "bool \<Rightarrow> rvalue list \<Rightarrow> int list \<Rightarrow> rvalue list list" where
  "callsFor tp cs order = map (\<lambda>idx. params tp idx (cs ! nat idx)) order"

text \<open>
  What a function does when it is called on the parameter lists \<open>ps\<close> one after the
  other, from the state \<open>s\<close>, until a call returns false (when \<open>r\<close>, that is when it
  returns a boolean at all): the number of calls made and the state left.
\<close>

fun callUntilStop ::
  "(rvalue list \<Rightarrow> 's \<Rightarrow> bool \<times> 's) \<Rightarrow> bool \<Rightarrow> rvalue list list \<Rightarrow> 's \<Rightarrow> nat \<times> 's" where
  "callUntilStop fn r [] s = (0, s)"
| "callUntilStop fn r (p # ps) s =
     (case fn p s of
        (res, s') \<Rightarrow>
          if r \<and> \<not> res then (1, s')
          else (case callUntilStop fn r ps s' of (k, s'') \<Rightarrow> (Suc k, s'')))"

text \<open>
  The booleans a function returns when it is called on every parameter list of \<open>ps\<close>
  in turn, whatever it returns: the \<open>k\<close>-th element is the result of the \<open>k\<close>-th call.
\<close>

fun outcomes :: "(rvalue list \<Rightarrow> 's \<Rightarrow> bool \<times> 's) \<Rightarrow> rvalue list list \<Rightarrow> 's \<Rightarrow> bool list" where
  "outcomes fn [] s = []"
| "outcomes fn (p # ps) s = (case fn p s of (res, s') \<Rightarrow> res # outcomes fn ps s')"

text \<open>
  The contract of \<^verbatim>\<open>rand.Perm(n)\<close>: a permutation of the integers of \<^verbatim>\<open>[0,n)\<close>.
\<close>

definition isPerm :: "nat \<Rightarrow> int list \<Rightarrow> bool" where
  "isPerm n xs = (distinct xs \<and> set xs = int ` {0..<n})"

text \<open>
  The four forms of the doc comment of \<^verbatim>\<open>Run\<close>, for the case type \<open>t\<close>:
  \<^verbatim>\<open>func(tc T)\<close>, \<^verbatim>\<open>func(tc T) bool\<close>, \<^verbatim>\<open>func(idx int, tc T)\<close> and
  \<^verbatim>\<open>func(idx int, tc T) bool\<close>.
\<close>

definition acceptedForm :: "gtype \<Rightarrow> gtype list \<Rightarrow> gtype list \<Rightarrow> bool" where
  "acceptedForm t ins outs = ((ins = [t] \<or> ins = [TInt, t]) \<and> (outs = [] \<or> outs = [TBool]))"

text \<open>
  The indices \<^verbatim>\<open>Run\<close> goes through and does not skip, by the branch it takes: the
  indices of the flag that are in range, the indices of the cases in order, or the
  permutation drawn.
\<close>

definition resolvedOrder :: "env \<Rightarrow> Test \<Rightarrow> int list" where
  "resolvedOrder e tc =
     (case runOrder e of
        (idxs, True) \<Rightarrow> filter (inRange (length (cases tc))) idxs
      | (idxs, False) \<Rightarrow>
          if InOrder tc then map int [0..<length (cases tc)]
          else randPerm e (length (cases tc)))"

text \<open>
  The ways the type of a function fails the checks of \<^verbatim>\<open>Run\<close>, as the
  specification lists them: it has neither one nor two parameters; the only
  parameter, or the second of two, is not of the case type; the first of two is not
  \<^verbatim>\<open>int\<close>; it has more than one result; its only result is not \<^verbatim>\<open>bool\<close>.
\<close>

definition signatureFails :: "gtype option \<Rightarrow> gtype list \<Rightarrow> gtype list \<Rightarrow> bool" where
  "signatureFails vt ins outs =
     ((length ins \<noteq> 1 \<and> length ins \<noteq> 2)
      \<or> (length ins = 1 \<and> Some (ins ! 0) \<noteq> vt)
      \<or> (length ins = 2 \<and> Some (ins ! 1) \<noteq> vt)
      \<or> (length ins = 2 \<and> ins ! 0 \<noteq> TInt)
      \<or> length outs > 1
      \<or> (length outs = 1 \<and> outs ! 0 \<noteq> TBool))"

text \<open>
  An argument fails the checks when it is not a function or when the type of the
  function fails them.
\<close>

definition shapeFails :: "gtype option \<Rightarrow> 's argument \<Rightarrow> bool" where
  "shapeFails vt f =
     (case f of
        NilArg \<Rightarrow> True
      | Data v \<Rightarrow> True
      | _ \<Rightarrow> signatureFails vt (fnIn f) (fnOut f))"

text \<open>The function values that \<^verbatim>\<open>Call\<close> may refuse to enter.\<close>

definition nilOrVariadic :: "'s argument \<Rightarrow> bool" where
  "nilOrVariadic f =
     (case f of
        NilFunc ins outs \<Rightarrow> True
      | VariadicFunc fixed elem outs fn \<Rightarrow> True
      | _ \<Rightarrow> False)"

text \<open>
  An argument that fails a check whatever the type of the cases is: it is not a
  function, it has neither one nor two parameters, the first of two is not \<^verbatim>\<open>int\<close>,
  it has more than one result, or its only result is not \<^verbatim>\<open>bool\<close>.
\<close>

definition malformed :: "'s argument \<Rightarrow> bool" where
  "malformed f =
     (case f of
        NilArg \<Rightarrow> True
      | Data v \<Rightarrow> True
      | _ \<Rightarrow>
          (length (fnIn f) \<noteq> 1 \<and> length (fnIn f) \<noteq> 2)
          \<or> (length (fnIn f) = 2 \<and> fnIn f ! 0 \<noteq> TInt)
          \<or> length (fnOut f) > 1
          \<or> (length (fnOut f) = 1 \<and> fnOut f ! 0 \<noteq> TBool))"

text \<open>The type of the first element of the input of \<^verbatim>\<open>Cases\<close>, if there is one.\<close>

definition firstType :: "gval option list \<Rightarrow> gtype option" where
  "firstType xs = (case xs of [] \<Rightarrow> None | x # rest \<Rightarrow> map_option TypeOf x)"

text \<open>
  The order of the specification, in its words. The external order source is split on
  commas, every token is parsed as an integer, and the tokens that do not parse are
  dropped; an absent source gives nothing.
\<close>

definition specParsed :: "string option \<Rightarrow> int list" where
  "specParsed flag =
     (case flag of
        None \<Rightarrow> []
      | Some str \<Rightarrow>
          concat (map (\<lambda>tok. case ParseInt tok of Inl err \<Rightarrow> [] | Inr i \<Rightarrow> [i]) (Split str)))"

text \<open>
  The precedence of the specification: a non-empty parsed list wins, with the indices
  out of range left out; otherwise the flag \<^verbatim>\<open>InOrder\<close> gives the cases in
  order; otherwise the permutation drawn.
\<close>

definition specOrder :: "env \<Rightarrow> Test \<Rightarrow> int list" where
  "specOrder e tc =
     (if specParsed (runorder e) \<noteq> [] then
        filter (inRange (length (cases tc))) (specParsed (runorder e))
      else if InOrder tc then map int [0..<length (cases tc)]
      else randPerm e (length (cases tc)))"

section \<open>Concrete inputs\<close>

text \<open>
  A collection of four strings, the empty collection, a collection of one slice of
  integers, a function that does nothing, a function that counts its calls and
  returns false on the third, a function that returns false at once, and a source of
  permutations that gives the indices in descending order.
\<close>

definition fourCases :: "gval option list" where
  "fourCases = [Some (VString ''a''), Some (VString ''b''), Some (VString ''c''), Some (VString ''d'')]"

definition tcFour :: Test where
  "tcFour = \<lparr>cases = [Valid (VString ''a''), Valid (VString ''b''), Valid (VString ''c''),
                      Valid (VString ''d'')],
            vType = Some TString, InOrder = False\<rparr>"

definition tcEmpty :: Test where
  "tcEmpty = \<lparr>cases = [], vType = None, InOrder = False\<rparr>"

definition noop :: "rvalue list \<Rightarrow> unit \<Rightarrow> bool \<times> unit" where
  "noop p s = (True, s)"

definition stopThird :: "rvalue list \<Rightarrow> nat \<Rightarrow> bool \<times> nat" where
  "stopThird p s = (s < 2, Suc s)"

definition refuse :: "rvalue list \<Rightarrow> unit \<Rightarrow> bool \<times> unit" where
  "refuse p s = (False, s)"

definition tcSlice :: Test where
  "tcSlice = \<lparr>cases = [Valid (VSlice TInt [VInt 7])], vType = Some (TSlice TInt), InOrder = False\<rparr>"

definition revPerm :: "nat \<Rightarrow> int list" where
  "revPerm n = rev (map int [0..<n])"

definition envFlag :: "string \<Rightarrow> env" where
  "envFlag str = \<lparr>runorder = Some str, randPerm = revPerm\<rparr>"

section \<open>The loops as sequences of calls\<close>

lemma loopOverride_eq:
  "loopOverride (Func ins outs fn) cs tp r idxs count (calls, s) =
     (case callUntilStop fn r (callsFor tp cs (filter (inRange (length cs)) idxs)) s of
        (k, s') \<Rightarrow>
          (Inr (count + int k), calls @ take k (callsFor tp cs (filter (inRange (length cs)) idxs)), s'))"
proof (induction idxs arbitrary: count calls s)
  case Nil
  then show ?case by (simp add: callsFor_def)
next
  case (Cons idx idxs)
  show ?case
  proof (cases "inRange (length cs) idx")
    case False
    then show ?thesis using Cons.IH [of count calls s]
      by (auto simp: inRange_def)
  next
    case True
    obtain res s1 where f: "fn (params tp idx (cs ! nat idx)) s = (res, s1)"
      by (cases "fn (params tp idx (cs ! nat idx)) s")
    show ?thesis
      using True f Cons.IH [of "count + 1" "calls @ [params tp idx (cs ! nat idx)]" s1]
      by (auto simp: inRange_def runTest_def callsFor_def split: prod.splits)
  qed
qed

lemma loopRandom_eq:
  "\<forall>idx \<in> set list. inRange (length cs) idx \<Longrightarrow>
   loopRandom (Func ins outs fn) cs tp r list count (calls, s) =
     (case callUntilStop fn r (callsFor tp cs list) s of
        (k, s') \<Rightarrow> (Inr (count + int k), calls @ take k (callsFor tp cs list), s'))"
proof (induction list arbitrary: count calls s)
  case Nil
  then show ?case by (simp add: callsFor_def)
next
  case (Cons idx list)
  obtain res s1 where f: "fn (params tp idx (cs ! nat idx)) s = (res, s1)"
    by (cases "fn (params tp idx (cs ! nat idx)) s")
  have r: "inRange (length cs) idx" and rest: "\<forall>i \<in> set list. inRange (length cs) i"
    using Cons.prems by simp_all
  show ?case
    using r f Cons.IH [OF rest, of "count + 1" "calls @ [params tp idx (cs ! nat idx)]" s1]
    by (auto simp: inRange_def runTest_def callsFor_def split: prod.splits)
qed

lemma loopInOrder_eq:
  "loopInOrder (Func ins outs fn) tp r idx rest count (calls, s) =
     (case callUntilStop fn r (map (\<lambda>(i, c). params tp (int i) c) (zip [idx..<idx + length rest] rest)) s of
        (k, s') \<Rightarrow>
          (Inr (count + int k),
           calls @ take k (map (\<lambda>(i, c). params tp (int i) c) (zip [idx..<idx + length rest] rest)), s'))"
proof (induction rest arbitrary: idx count calls s)
  case Nil
  then show ?case by simp
next
  case (Cons testcase rest)
  obtain res s1 where f: "fn (params tp (int idx) testcase) s = (res, s1)"
    by (cases "fn (params tp (int idx) testcase) s")
  have u: "[idx..<idx + length (testcase # rest)] = idx # [Suc idx..<Suc idx + length rest]"
    by (simp add: upt_rec)
  show ?case
    using f Cons.IH [of "Suc idx" "count + 1" "calls @ [params tp (int idx) testcase]" s1]
    unfolding u
    by (auto simp: runTest_def split: prod.splits)
qed

lemma zip_upt_callsFor:
  "map (\<lambda>(i, c). params tp (int i) c) (zip [0..<length cs] cs) = callsFor tp cs (map int [0..<length cs])"
proof (rule nth_equalityI)
  show "length (map (\<lambda>(i, c). params tp (int i) c) (zip [0..<length cs] cs)) =
        length (callsFor tp cs (map int [0..<length cs]))"
    by (simp add: callsFor_def)
next
  fix i
  assume "i < length (map (\<lambda>(i, c). params tp (int i) c) (zip [0..<length cs] cs))"
  then have "i < length cs" by simp
  then show "map (\<lambda>(i, c). params tp (int i) c) (zip [0..<length cs] cs) ! i =
        callsFor tp cs (map int [0..<length cs]) ! i"
    by (simp add: callsFor_def)
qed

lemma isPerm_revPerm: "isPerm n (revPerm n)"
  by (simp add: isPerm_def revPerm_def distinct_map)

lemma isPerm_inRange: "isPerm n xs \<Longrightarrow> \<forall>idx \<in> set xs. inRange n idx"
  by (auto simp: isPerm_def inRange_def)

lemma isPerm_length: "isPerm n xs \<Longrightarrow> length xs = n"
proof -
  assume a: "isPerm n xs"
  from a have d: "distinct xs" by (simp add: isPerm_def)
  from a have e: "set xs = int ` {0..<n}" by (simp add: isPerm_def)
  have "length xs = card (set xs)" using distinct_card [OF d] by simp
  also have "\<dots> = card (int ` {0..<n})" by (simp only: e)
  also have "\<dots> = n" by (simp add: card_image)
  finally show ?thesis .
qed

lemma accepted_checks:
  "acceptedForm t ins outs \<Longrightarrow>
   checkIn (Some t) ins = Inr (length ins = 2) \<and> checkOut outs = Inr (outs = [TBool])"
  by (auto simp: acceptedForm_def checkIn_def checkOut_def)

lemma Run_dispatch_gen:
  assumes ne: "cases tc \<noteq> []" and vt: "vType tc = Some t" and af: "acceptedForm t ins outs"
    and pm: "snd (runOrder e) \<or> InOrder tc \<or>
             (\<forall>idx \<in> set (randPerm e (length (cases tc))). inRange (length (cases tc)) idx)"
    and cu: "callUntilStop fn (outs = [TBool])
               (callsFor (length ins = 2) (cases tc) (resolvedOrder e tc)) s = (k, s')"
  shows "Run e tc (Func ins outs fn) s =
           (Inr (int k), take k (callsFor (length ins = 2) (cases tc) (resolvedOrder e tc)), s')"
proof -
  obtain idxs ok where ro: "runOrder e = (idxs, ok)" by (cases "runOrder e")
  show ?thesis
  proof (cases ok)
    case True
    then show ?thesis
      using ne vt accepted_checks [OF af] ro cu
      by (simp add: loopOverride_eq resolvedOrder_def)
  next
    case False
    show ?thesis
    proof (cases "InOrder tc")
      case True
      then show ?thesis
        using ne vt accepted_checks [OF af] ro cu False
          loopInOrder_eq [of ins outs fn "length ins = 2" "outs = [TBool]" 0 "cases tc" 0 "[]" s]
        by (simp add: resolvedOrder_def zip_upt_callsFor)
    next
      case io: False
      have "\<forall>idx \<in> set (randPerm e (length (cases tc))). inRange (length (cases tc)) idx"
        using pm io False ro by simp
      then show ?thesis
        using ne vt accepted_checks [OF af] ro cu False io
        by (simp add: resolvedOrder_def loopRandom_eq)
    qed
  qed
qed

lemma Run_dispatch:
  assumes ne: "cases tc \<noteq> []" and vt: "vType tc = Some t" and af: "acceptedForm t ins outs"
    and pm: "\<forall>idx \<in> set (randPerm e (length (cases tc))). inRange (length (cases tc)) idx"
    and cu: "callUntilStop fn (outs = [TBool])
               (callsFor (length ins = 2) (cases tc) (resolvedOrder e tc)) s = (k, s')"
  shows "Run e tc (Func ins outs fn) s =
           (Inr (int k), take k (callsFor (length ins = 2) (cases tc) (resolvedOrder e tc)), s')"
  using ne vt af _ cu by (rule Run_dispatch_gen) (simp add: pm)

subsection \<open>The checks\<close>

lemma checks_fail:
  "signatureFails vt ins outs \<Longrightarrow>
   (\<exists>err. checkIn vt ins = Inl err) \<or> (\<exists>err. checkOut outs = Inl err)"
  by (auto simp: signatureFails_def checkIn_def checkOut_def)

lemma checks_pass:
  assumes "\<not> signatureFails vt ins outs"
  shows "checkIn vt ins = Inr (length ins = 2) \<and> checkOut outs = Inr (length outs = 1)"
proof -
  have i: "length ins = 1 \<and> Some (ins ! 0) = vt \<or> length ins = 2 \<and> ins ! 0 = TInt \<and> Some (ins ! 1) = vt"
    using assms unfolding signatureFails_def by simp blast
  have o: "length outs = 0 \<or> length outs = 1 \<and> outs ! 0 = TBool"
    using assms unfolding signatureFails_def by (cases outs) auto
  have "checkIn vt ins = Inr (length ins = 2)"
    using i unfolding checkIn_def by auto
  moreover have "checkOut outs = Inr (length outs = 1)"
    using o unfolding checkOut_def by auto
  ultimately show ?thesis by simp
qed

lemma Run_signatureFails:
  assumes "signatureFails (vType tc) (fnIn f) (fnOut f)"
  shows "\<exists>err. Run e tc f s = (Inl err, [], s)"
proof -
  have c: "(\<exists>err. checkIn (vType tc) (fnIn f) = Inl err) \<or> (\<exists>err. checkOut (fnOut f) = Inl err)"
    using assms by (rule checks_fail)
  show ?thesis
  proof (cases f)
    case NilArg
    then show ?thesis by simp
  next
    case (Data v)
    then show ?thesis by simp
  next
    case (Func ins outs fn)
    then show ?thesis using c by (auto split: sum.splits)
  next
    case (NilFunc ins outs)
    then show ?thesis using c by (auto split: sum.splits)
  next
    case (VariadicFunc fixed elem outs fn)
    then show ?thesis using c by (auto split: sum.splits)
  qed
qed

lemma Run_shapeFails:
  "shapeFails (vType tc) f \<Longrightarrow> \<exists>err. Run e tc f s = (Inl err, [], s)"
proof (cases f)
  case NilArg
  then show ?thesis by simp
next
  case (Data v)
  then show ?thesis by simp
next
  case (Func ins outs fn)
  assume "shapeFails (vType tc) f"
  then have "signatureFails (vType tc) (fnIn f) (fnOut f)"
    using Func by (simp add: shapeFails_def)
  then show ?thesis by (rule Run_signatureFails)
next
  case (NilFunc ins outs)
  assume "shapeFails (vType tc) f"
  then have "signatureFails (vType tc) (fnIn f) (fnOut f)"
    using NilFunc by (simp add: shapeFails_def)
  then show ?thesis by (rule Run_signatureFails)
next
  case (VariadicFunc fixed elem outs fn)
  assume "shapeFails (vType tc) f"
  then have "signatureFails (vType tc) (fnIn f) (fnOut f)"
    using VariadicFunc by (simp add: shapeFails_def)
  then show ?thesis by (rule Run_signatureFails)
qed

lemma pass_accepted:
  assumes "\<not> signatureFails vt ins outs"
  shows "\<exists>t. vt = Some t \<and> acceptedForm t ins outs"
proof -
  have i: "length ins = 1 \<and> Some (ins ! 0) = vt \<or> length ins = 2 \<and> ins ! 0 = TInt \<and> Some (ins ! 1) = vt"
    using assms unfolding signatureFails_def by simp blast
  have o: "length outs = 0 \<or> length outs = 1 \<and> outs ! 0 = TBool"
    using assms unfolding signatureFails_def by (cases outs) auto
  from i obtain t where t: "vt = Some t" and ins: "ins = [t] \<or> ins = [TInt, t]"
  proof
    assume a: "length ins = 1 \<and> Some (ins ! 0) = vt"
    then have "ins = [ins ! 0]" by (cases ins) auto
    then show ?thesis using a that [of "ins ! 0"] by auto
  next
    assume a: "length ins = 2 \<and> ins ! 0 = TInt \<and> Some (ins ! 1) = vt"
    then have "ins = [TInt, ins ! 1]"
      by (cases ins; cases "tl ins") auto
    then show ?thesis using a that [of "ins ! 1"] by auto
  qed
  from o have "outs = [] \<or> outs = [TBool]"
    by (cases outs) auto
  then show ?thesis using t ins by (auto simp: acceptedForm_def)
qed

lemma accepted_pass:
  "acceptedForm t ins outs \<Longrightarrow> \<not> signatureFails (Some t) ins outs"
  by (auto simp: acceptedForm_def signatureFails_def)

subsection \<open>A nil function\<close>

lemma loopOverride_nil:
  "loopOverride (NilFunc ins outs) cs tp r idxs count st =
     (if filter (inRange (length cs)) idxs = [] then (Inr count, st)
      else (Inl CallOfNilFunction, st))"
  by (induction idxs) (auto simp: inRange_def runTest_def)

lemma loopInOrder_nil:
  "rest \<noteq> [] \<Longrightarrow>
   loopInOrder (NilFunc ins outs) tp r idx rest count st = (Inl CallOfNilFunction, st)"
  by (cases rest) (auto simp: runTest_def)

lemma loopRandom_nil:
  "list \<noteq> [] \<Longrightarrow> \<forall>idx \<in> set list. inRange (length cs) idx \<Longrightarrow>
   loopRandom (NilFunc ins outs) cs tp r list count st = (Inl CallOfNilFunction, st)"
  by (cases list) (auto simp: inRange_def runTest_def)

lemma Run_nil:
  assumes sf: "\<not> signatureFails (vType tc) ins outs" and ne: "cases tc \<noteq> []"
    and ro: "resolvedOrder e tc \<noteq> []"
    and pm: "isPerm (length (cases tc)) (randPerm e (length (cases tc)))"
  shows "Run e tc (NilFunc ins outs) s = (Inl CallOfNilFunction, [], s)"
proof -
  note cp = checks_pass [OF sf]
  obtain idxs ok where r: "runOrder e = (idxs, ok)" by (cases "runOrder e")
  show ?thesis
  proof (cases ok)
    case True
    then have "filter (inRange (length (cases tc))) idxs \<noteq> []"
      using ro r by (simp add: resolvedOrder_def)
    then show ?thesis using cp ne r True by (simp add: loopOverride_nil)
  next
    case False
    show ?thesis
    proof (cases "InOrder tc")
      case True
      then show ?thesis using cp ne r False by (simp add: loopInOrder_nil)
    next
      case io: False
      have l: "randPerm e (length (cases tc)) \<noteq> []"
        using ro r False io by (simp add: resolvedOrder_def)
      show ?thesis
        using cp ne r False io by (simp add: loopRandom_nil [OF l isPerm_inRange [OF pm]])
    qed
  qed
qed

lemma Run_built_empty:
  assumes "vType tc = None"
  shows "\<exists>err. Run e tc f s = (Inl err, [], s)"
proof (cases f)
  case NilArg
  then show ?thesis by simp
next
  case (Data v)
  then show ?thesis by simp
next
  case (Func ins outs fn)
  have "signatureFails (vType tc) (fnIn f) (fnOut f)"
    using assms by (auto simp: signatureFails_def)
  then show ?thesis by (rule Run_signatureFails)
next
  case (NilFunc ins outs)
  have "signatureFails (vType tc) (fnIn f) (fnOut f)"
    using assms by (auto simp: signatureFails_def)
  then show ?thesis by (rule Run_signatureFails)
next
  case (VariadicFunc fixed elem outs fn)
  have "signatureFails (vType tc) (fnIn f) (fnOut f)"
    using assms by (auto simp: signatureFails_def)
  then show ?thesis by (rule Run_signatureFails)
qed

lemma Run_accepted:
  assumes vt: "vType tc = Some t" and af: "acceptedForm t ins outs"
    and pm: "isPerm (length (cases tc)) (randPerm e (length (cases tc)))"
  shows "\<exists>n calls s'. Run e tc (Func ins outs fn) s = (Inr n, calls, s')"
proof (cases "cases tc = []")
  case True
  then show ?thesis using vt accepted_checks [OF af] by simp
next
  case False
  obtain k s' where
    "callUntilStop fn (outs = [TBool]) (callsFor (length ins = 2) (cases tc) (resolvedOrder e tc)) s = (k, s')"
    by (cases "callUntilStop fn (outs = [TBool]) (callsFor (length ins = 2) (cases tc) (resolvedOrder e tc)) s")
  from Run_dispatch [OF False vt af isPerm_inRange [OF pm] this]
  show ?thesis by blast
qed

lemma revPerm_four: "revPerm (Suc (Suc (Suc (Suc 0)))) = [3, 2, 1, 0]"
  by (simp add: revPerm_def)

subsection \<open>The loop of the constructor\<close>

lemma CasesLoop_same:
  assumes "vType tc = Some t" and "\<forall>x \<in> set xs. \<exists>v. x = Some v \<and> TypeOf v = t"
  shows "CasesLoop tc i xs = Inr (tc\<lparr>cases := cases tc @ map ValueOf xs\<rparr>)"
  using assms
proof (induction xs arbitrary: tc i)
  case Nil
  then show ?case by simp
next
  case (Cons x xs)
  from Cons.prems(2) obtain v where x: "x = Some v" and tv: "TypeOf v = t" by auto
  have "CasesLoop (tc\<lparr>cases := cases tc @ [Valid v]\<rparr>) (Suc i) xs =
        Inr (tc\<lparr>cases := cases tc @ [Valid v]\<rparr>\<lparr>cases := cases (tc\<lparr>cases := cases tc @ [Valid v]\<rparr>) @ map ValueOf xs\<rparr>)"
    using Cons.prems by (intro Cons.IH) auto
  then show ?case using x tv Cons.prems(1) by simp
qed

lemma CasesLoop_other:
  assumes "vType tc = Some t" and "\<not> (\<forall>x \<in> set xs. \<exists>v. x = Some v \<and> TypeOf v = t)"
  shows "\<exists>err. CasesLoop tc i xs = Inl err"
  using assms
proof (induction xs arbitrary: tc i)
  case Nil
  then show ?case by simp
next
  case (Cons x xs)
  show ?case
  proof (cases x)
    case None
    then show ?thesis by simp
  next
    case (Some v)
    show ?thesis
    proof (cases "TypeOf v = t")
      case False
      then show ?thesis using Some Cons.prems(1) by simp
    next
      case True
      then have "\<not> (\<forall>x \<in> set xs. \<exists>v. x = Some v \<and> TypeOf v = t)"
        using Cons.prems(2) Some by auto
      then have "\<exists>err. CasesLoop (tc\<lparr>cases := cases tc @ [Valid v]\<rparr>) (Suc i) xs = Inl err"
        using Cons.prems(1) by (intro Cons.IH) auto
      then show ?thesis using Some True Cons.prems(1) by simp
    qed
  qed
qed

subsection \<open>Calls until the first false\<close>

lemma callUntilStop_all:
  "(r \<longrightarrow> (\<forall>p s. fst (fn p s))) \<Longrightarrow> \<exists>s'. callUntilStop fn r ps s = (length ps, s')"
proof (induction ps arbitrary: s)
  case Nil
  then show ?case by simp
next
  case (Cons p ps)
  obtain res s1 where f: "fn p s = (res, s1)" by (cases "fn p s")
  have c: "\<not> (r \<and> \<not> res)" using Cons.prems f by (metis fst_conv)
  from Cons.IH [OF Cons.prems, of s1] obtain s' where "callUntilStop fn r ps s1 = (length ps, s')"
    by blast
  then show ?case using f c by auto
qed

lemma callUntilStop_first_false:
  assumes "k < length ps" and "\<not> outcomes fn ps s ! k" and "\<forall>j<k. outcomes fn ps s ! j"
  shows "\<exists>s'. callUntilStop fn True ps s = (Suc k, s')"
  using assms
proof (induction ps arbitrary: s k)
  case Nil
  then show ?case by simp
next
  case (Cons p ps)
  obtain res s1 where f: "fn p s = (res, s1)" by (cases "fn p s")
  show ?case
  proof (cases k)
    case 0
    then show ?thesis using Cons.prems f by simp
  next
    case (Suc k')
    have r: "res" using Cons.prems(3) f Suc by auto
    have a: "k' < length ps" using Cons.prems(1) Suc by simp
    have b: "\<not> outcomes fn ps s1 ! k'" using Cons.prems(2) f Suc by simp
    have c: "\<forall>j<k'. outcomes fn ps s1 ! j"
    proof (intro allI impI)
      fix j assume "j < k'"
      then have "Suc j < k" using Suc by simp
      then have "outcomes fn (p # ps) s ! Suc j" using Cons.prems(3) by blast
      then show "outcomes fn ps s1 ! j" using f by simp
    qed
    from Cons.IH [OF a b c] obtain s' where "callUntilStop fn True ps s1 = (Suc k', s')" by blast
    then show ?thesis using f r Suc by simp
  qed
qed

lemma length_outcomes: "length (outcomes fn ps s) = length ps"
  by (induction ps arbitrary: s) (auto split: prod.splits)

lemma resolvedOrder_no_override:
  "\<not> snd (runOrder e) \<Longrightarrow>
   resolvedOrder e tc =
     (if InOrder tc then map int [0..<length (cases tc)] else randPerm e (length (cases tc)))"
  by (cases "runOrder e") (simp add: resolvedOrder_def)

lemma isPerm_upt: "isPerm n (map int [0..<n])"
  by (simp add: isPerm_def distinct_map)

subsection \<open>The order of the specification\<close>

lemma runOrderLoop_append:
  "runOrderLoop ss idx =
     idx @ concat (map (\<lambda>tok. case ParseInt tok of Inl err \<Rightarrow> [] | Inr i \<Rightarrow> [i]) ss)"
  by (induction ss arbitrary: idx) (auto split: sum.splits)

lemma runOrder_131: "runorder e = Some ''1,3,1'' \<Longrightarrow> runOrder e = ([1, 3, 1], True)"
  by (simp add: runOrder_def ParseInt_def ParseUint_def isDigit_def digitVal_def maxUint64_def)

lemma runOrder_192: "runorder e = Some ''1,9,2'' \<Longrightarrow> runOrder e = ([1, 9, 2], True)"
  by (simp add: runOrder_def ParseInt_def ParseUint_def isDigit_def digitVal_def maxUint64_def)

lemma Run_override:
  assumes "cases tc \<noteq> []" and "vType tc = Some t" and "acceptedForm t ins outs"
    and "runOrder e = (idxs, True)"
    and "callUntilStop fn (outs = [TBool])
           (callsFor (length ins = 2) (cases tc) (filter (inRange (length (cases tc))) idxs)) s = (k, s')"
  shows "Run e tc (Func ins outs fn) s =
           (Inr (int k),
            take k (callsFor (length ins = 2) (cases tc) (filter (inRange (length (cases tc))) idxs)),
            s')"
  using assms(1,2,4,5) accepted_checks [OF assms(3)] by (simp add: loopOverride_eq)

lemma Run_override_all:
  assumes "cases tc \<noteq> []" and "vType tc = Some t" and "acceptedForm t ins outs"
    and "runOrder e = (idxs, True)"
    and "outs = [TBool] \<longrightarrow> (\<forall>p s. fst (fn p s))"
  shows "\<exists>s'. Run e tc (Func ins outs fn) s =
           (Inr (int (length (filter (inRange (length (cases tc))) idxs))),
            callsFor (length ins = 2) (cases tc) (filter (inRange (length (cases tc))) idxs), s')"
proof -
  let ?ord = "filter (inRange (length (cases tc))) idxs"
  let ?ps = "callsFor (length ins = 2) (cases tc) ?ord"
  have len: "length ?ps = length ?ord" by (simp add: callsFor_def)
  from callUntilStop_all [OF assms(5), of ?ps s] obtain s'
    where cu: "callUntilStop fn (outs = [TBool]) ?ps s = (length ?ps, s')" by blast
  have "Run e tc (Func ins outs fn) s = (Inr (int (length ?ps)), take (length ?ps) ?ps, s')"
    using assms(1-4) cu by (rule Run_override)
  then show ?thesis using len by simp
qed

lemma runOrder_specParsed:
  "runOrder e = (specParsed (runorder e), specParsed (runorder e) \<noteq> [])"
proof (cases "runorder e")
  case None
  then show ?thesis by (simp add: runOrder_def specParsed_def)
next
  case (Some str)
  show ?thesis
  proof (cases "str = []")
    case True
    then show ?thesis using Some by (simp add: runOrder_def specParsed_def ParseInt_def)
  next
    case False
    then show ?thesis using Some
      by (simp add: runOrder_def specParsed_def runOrderLoop_append)
  qed
qed

lemma resolvedOrder_specOrder: "resolvedOrder e tc = specOrder e tc"
  by (simp add: resolvedOrder_def specOrder_def runOrder_specParsed)

subsection \<open>The concrete inputs evaluated\<close>

lemma resolvedOrder_four_random: "resolvedOrder (envFlag []) tcFour = [3, 2, 1, 0]"
  by (simp add: resolvedOrder_def runOrder_def envFlag_def tcFour_def revPerm_four)

lemma callsFor_four_random:
  "callsFor True (cases tcFour) [3, 2, 1, 0] =
     [[Valid (VInt 3), Valid (VString ''d'')], [Valid (VInt 2), Valid (VString ''c'')],
      [Valid (VInt 1), Valid (VString ''b'')], [Valid (VInt 0), Valid (VString ''a'')]]"
  by (simp add: callsFor_def params_def tcFour_def)

lemma specParsed_mixed: "specParsed (Some ''x,2,,+0,-1'') = [2, 0, - 1]"
  by (simp add: specParsed_def ParseInt_def ParseUint_def isDigit_def digitVal_def maxUint64_def)

subsection \<open>The calls of a run\<close>

lemma checkIn_two: "checkIn vt ins = Inr tp \<Longrightarrow> tp = (length ins = 2)"
  by (auto simp: checkIn_def split: if_splits)

lemma take_callsFor: "take k (callsFor tp cs order) = callsFor tp cs (take k order)"
  by (simp add: callsFor_def take_map)

lemma loopRandom_calls:
  "\<exists>order. (\<forall>idx \<in> set order. inRange (length cs) idx) \<and>
     fst (snd (loopRandom (Func ins outs fn) cs tp r list count (calls, s))) = calls @ callsFor tp cs order"
proof (induction list arbitrary: count calls s)
  case Nil
  have "(\<forall>idx \<in> set []. inRange (length cs) idx) \<and>
     fst (snd (loopRandom (Func ins outs fn) cs tp r [] count (calls, s))) = calls @ callsFor tp cs []"
    by (simp add: callsFor_def)
  then show ?case by blast
next
  case (Cons idx list)
  show ?case
  proof (cases "inRange (length cs) idx")
    case False
    then have "(\<forall>idx \<in> set []. inRange (length cs) idx) \<and>
       fst (snd (loopRandom (Func ins outs fn) cs tp r (idx # list) count (calls, s))) = calls @ callsFor tp cs []"
      by (auto simp: callsFor_def inRange_def)
    then show ?thesis by blast
  next
    case True
    obtain res s1 where f: "fn (params tp idx (cs ! nat idx)) s = (res, s1)"
      by (cases "fn (params tp idx (cs ! nat idx)) s")
    show ?thesis
    proof (cases "r \<and> \<not> res")
      case True
      with \<open>inRange (length cs) idx\<close> f
      have "(\<forall>i \<in> set [idx]. inRange (length cs) i) \<and>
         fst (snd (loopRandom (Func ins outs fn) cs tp r (idx # list) count (calls, s))) = calls @ callsFor tp cs [idx]"
        by (auto simp: callsFor_def inRange_def runTest_def)
      then show ?thesis by blast
    next
      case False
      from Cons.IH [of "count + 1" "calls @ [params tp idx (cs ! nat idx)]" s1]
      obtain order where o: "\<forall>i \<in> set order. inRange (length cs) i"
        "fst (snd (loopRandom (Func ins outs fn) cs tp r list (count + 1) (calls @ [params tp idx (cs ! nat idx)], s1))) =
           (calls @ [params tp idx (cs ! nat idx)]) @ callsFor tp cs order"
        by blast
      with \<open>inRange (length cs) idx\<close> f False
      have "(\<forall>i \<in> set (idx # order). inRange (length cs) i) \<and>
         fst (snd (loopRandom (Func ins outs fn) cs tp r (idx # list) count (calls, s))) =
           calls @ callsFor tp cs (idx # order)"
        by (auto simp: callsFor_def inRange_def runTest_def)
      then show ?thesis by blast
    qed
  qed
qed

lemma Run_calls:
  "\<exists>order. (\<forall>idx \<in> set order. inRange (length (cases tc)) idx) \<and>
     fst (snd (Run e tc (Func ins outs fn) s)) = callsFor (length ins = 2) (cases tc) order"
proof -
  let ?n = "length (cases tc)"
  have none: "fst (snd (Run e tc (Func ins outs fn) s)) = [] \<Longrightarrow> ?thesis"
  proof -
    assume "fst (snd (Run e tc (Func ins outs fn) s)) = []"
    then have "(\<forall>idx \<in> set []. inRange ?n idx) \<and>
      fst (snd (Run e tc (Func ins outs fn) s)) = callsFor (length ins = 2) (cases tc) []"
      by (simp add: callsFor_def)
    then show ?thesis by blast
  qed
  show ?thesis
  proof (cases "checkIn (vType tc) ins")
    case (Inl err)
    then show ?thesis by (intro none) simp
  next
    case (Inr tp)
    note ci = this
    have tp: "tp = (length ins = 2)" using ci by (rule checkIn_two)
    show ?thesis
    proof (cases "checkOut outs")
      case (Inl err)
      then show ?thesis using ci by (intro none) simp
    next
      case (Inr r)
      note co = this
      show ?thesis
      proof (cases "cases tc = []")
        case True
        then show ?thesis using ci co by (intro none) simp
      next
        case False
        obtain idxs ok where ro: "runOrder e = (idxs, ok)" by (cases "runOrder e")
        show ?thesis
        proof (cases ok)
          case True
          let ?ord = "filter (inRange ?n) idxs"
          obtain k s' where cu: "callUntilStop fn r (callsFor tp (cases tc) ?ord) s = (k, s')"
            by (cases "callUntilStop fn r (callsFor tp (cases tc) ?ord) s")
          have "fst (snd (Run e tc (Func ins outs fn) s)) = callsFor tp (cases tc) (take k ?ord)"
            using ci co False ro True cu by (simp add: loopOverride_eq take_callsFor)
          moreover have "\<forall>idx \<in> set (take k ?ord). inRange ?n idx"
            by (auto dest: in_set_takeD)
          ultimately show ?thesis unfolding tp by blast
        next
          case nok: False
          show ?thesis
          proof (cases "InOrder tc")
            case True
            let ?ord = "map int [0..<?n]"
            obtain k s' where cu: "callUntilStop fn r (callsFor tp (cases tc) ?ord) s = (k, s')"
              by (cases "callUntilStop fn r (callsFor tp (cases tc) ?ord) s")
            have "fst (snd (Run e tc (Func ins outs fn) s)) = callsFor tp (cases tc) (take k ?ord)"
              using ci co False ro nok True cu
                loopInOrder_eq [of ins outs fn tp r 0 "cases tc" 0 "[]" s]
              by (simp add: zip_upt_callsFor take_callsFor)
            moreover have "\<forall>idx \<in> set (take k ?ord). inRange ?n idx"
              by (auto dest!: in_set_takeD simp: inRange_def)
            ultimately show ?thesis unfolding tp by blast
          next
            case io: False
            have "fst (snd (Run e tc (Func ins outs fn) s)) =
                    fst (snd (loopRandom (Func ins outs fn) (cases tc) tp r (randPerm e ?n) 0 ([], s)))"
              using ci co False ro nok io by simp
            then show ?thesis
              using loopRandom_calls [of "cases tc" ins outs fn tp r "randPerm e ?n" 0 "[]" s]
              unfolding tp by simp
          qed
        qed
      qed
    qed
  qed
qed

section \<open>The claims\<close>

subsection \<open>C9: an empty collection rejects every function of one or two parameters\<close>

text \<open>
  Claim C9. The collection built from no element has a nil \<^verbatim>\<open>vType\<close>, and
  \<^verbatim>\<open>Run\<close> on it aborts for every function of one or two parameters, whatever its
  parameter and result types: the parameter checks come before the test for an empty
  collection, and no parameter type is the nil type. No call is made.
\<close>

theorem C9_empty_collection_rejects:
  assumes "Cases [] = Inr tc" and "length ins = 1 \<or> length ins = 2"
  shows "vType tc = None \<and> (\<exists>err. Run e tc (Func ins outs fn) s = (Inl err, [], s))"
proof -
  have vt: "vType tc = None" using assms(1) by (auto simp: Cases_def)
  have "\<exists>err. checkIn None ins = Inl err"
    using assms(2) by (auto simp: checkIn_def)
  then show ?thesis using vt by auto
qed

theorem C9_witness:
  "Cases [] = Inr tcEmpty \<and> (length [TString] = 1 \<or> length [TString] = 2) \<and> vType tcEmpty = None
   \<and> Run (envFlag []) tcEmpty (Func [TString] [] noop) () = (Inl (IncorrectParameter TString None), [], ())"
  using C9_empty_collection_rejects [of tcEmpty "[TString]" "envFlag []" "[]" noop "()"]
  by (simp add: Cases_def tcEmpty_def checkIn_def)

subsection \<open>C6: an empty collection does not bypass the checks\<close>

text \<open>
  Claim C6 says that on a collection of zero elements \<^verbatim>\<open>Run\<close> returns 0 for every
  argument, without any check of its shape. It does not: on the collection built from
  no element, an argument that is not a function aborts.
\<close>

theorem C6_counterexample:
  "Cases [] = Inr tcEmpty \<and> Run (envFlag []) tcEmpty (Data (VInt 1)) () = (Inl NotAFunction, [], ())"
  by (simp add: Cases_def tcEmpty_def)

text \<open>
  Claim C6, amended. On a collection built from zero elements \<^verbatim>\<open>Run\<close> never calls
  its argument and leaves the state as it is, and it returns no count other than 0.
  The checks of the shape come before the test for an empty collection: \<^verbatim>\<open>Run\<close>
  aborts for an argument that is not a function, that has neither one nor two
  parameters, whose first of two parameters is not \<^verbatim>\<open>int\<close>, that has more than one
  result, or whose only result is not \<^verbatim>\<open>bool\<close>.
\<close>

theorem C6_empty_collection_validates_first:
  assumes "Cases [] = Inr tc"
  shows "snd (Run e tc f s) = ([], s)
       \<and> ((\<exists>err. fst (Run e tc f s) = Inl err) \<or> fst (Run e tc f s) = Inr 0)
       \<and> (malformed f \<longrightarrow> (\<exists>err. fst (Run e tc f s) = Inl err))"
proof -
  have "vType tc = None" using assms by (auto simp: Cases_def)
  from Run_built_empty [OF this, of e f s] show ?thesis by auto
qed

theorem C6_witness:
  "Cases [] = Inr tcEmpty
   \<and> malformed (Data (VInt 1) :: unit argument)
   \<and> Run (envFlag []) tcEmpty (Data (VInt 1)) () = (Inl NotAFunction, [], ())
   \<and> malformed (Func [TString, TString, TString] [] noop)
   \<and> Run (envFlag []) tcEmpty (Func [TString, TString, TString] [] noop) () =
       (Inl IncorrectNumberOfParameters, [], ())"
proof -
  have c: "Cases [] = Inr tcEmpty" by (simp add: Cases_def tcEmpty_def)
  show ?thesis
    using c C6_empty_collection_validates_first [OF c, of "envFlag []" "Data (VInt 1)" "()"]
      C6_empty_collection_validates_first [OF c, of "envFlag []"
        "Func [TString, TString, TString] [] noop" "()"]
    by (simp add: malformed_def tcEmpty_def checkIn_def)
qed

subsection \<open>C7: when \<^verbatim>\<open>Run\<close> aborts\<close>

text \<open>
  Claim C7 says that \<^verbatim>\<open>Run\<close> aborts before any call if and only if the argument
  fails the checks of its shape, and that a function of one of the four accepted forms
  is never aborted. It is not so for every function value. A nil function of the
  type \<^verbatim>\<open>func(string)\<close> passes every check on a collection of strings, and
  \<^verbatim>\<open>Run\<close> aborts at the first call, before the function is entered; so does a
  variadic \<^verbatim>\<open>func(...int)\<close> on a collection of slices of integers, whose one
  parameter has the type of the cases.
\<close>

theorem C7_counterexample:
  "\<not> shapeFails (vType tcFour) (NilFunc [TString] [] :: unit argument)
   \<and> Run (envFlag []) tcFour (NilFunc [TString] []) () = (Inl CallOfNilFunction, [], ())
   \<and> Cases [Some (VSlice TInt [VInt 7])] = Inr tcSlice
   \<and> \<not> shapeFails (vType tcSlice) (VariadicFunc [] TInt [] noop)
   \<and> Run (envFlag []) tcSlice (VariadicFunc [] TInt [] noop) () =
       (Inl CallCannotUseArgument, [], ())"
  by (simp add: shapeFails_def signatureFails_def tcFour_def tcSlice_def Cases_def
      checkIn_def checkOut_def envFlag_def runOrder_def revPerm_def runTest_def params_def
      AssignableTo_def)

text \<open>
  Claim C7, amended. When \<^verbatim>\<open>rand.Perm\<close> keeps its contract: an argument that fails
  the checks of its shape (it is not a function, its number of parameters is not 1 or
  2, its only parameter or the second of two is not of the case type, the first of two
  is not \<^verbatim>\<open>int\<close>, it has more than one result, or its only result is not
  \<^verbatim>\<open>bool\<close>) makes \<^verbatim>\<open>Run\<close> abort before any call, the state untouched; for an
  argument that is neither a nil function nor a variadic function, \<^verbatim>\<open>Run\<close> aborts
  if and only if the argument fails these checks; a function of one of the four
  accepted forms that is neither nil nor variadic is never aborted; and a nil function
  that passes the checks makes \<^verbatim>\<open>Run\<close> abort at the first call it attempts, no call
  made.
\<close>

theorem C7_abort_iff_shape_fails:
  assumes "isPerm (length (cases tc)) (randPerm e (length (cases tc)))"
  shows "(shapeFails (vType tc) f \<longrightarrow> (\<exists>err. Run e tc f s = (Inl err, [], s)))
       \<and> (\<not> nilOrVariadic f \<longrightarrow>
            ((\<exists>err. fst (Run e tc f s) = Inl err) \<longleftrightarrow> shapeFails (vType tc) f))
       \<and> (\<forall>t ins outs fn. f = Func ins outs fn \<and> vType tc = Some t \<and> acceptedForm t ins outs
            \<longrightarrow> (\<exists>n. fst (Run e tc f s) = Inr n))
       \<and> (\<forall>ins outs. f = NilFunc ins outs \<and> \<not> shapeFails (vType tc) f \<and> cases tc \<noteq> []
              \<and> resolvedOrder e tc \<noteq> []
            \<longrightarrow> Run e tc f s = (Inl CallOfNilFunction, [], s))"
proof (intro conjI allI impI)
  assume "shapeFails (vType tc) f"
  then show "\<exists>err. Run e tc f s = (Inl err, [], s)" by (rule Run_shapeFails)
next
  assume nv: "\<not> nilOrVariadic f"
  show "(\<exists>err. fst (Run e tc f s) = Inl err) \<longleftrightarrow> shapeFails (vType tc) f"
  proof
    assume ab: "\<exists>err. fst (Run e tc f s) = Inl err"
    show "shapeFails (vType tc) f"
    proof (rule ccontr)
      assume ns: "\<not> shapeFails (vType tc) f"
      then obtain ins outs fn where f: "f = Func ins outs fn"
        using nv by (cases f) (auto simp: shapeFails_def nilOrVariadic_def)
      from ns have "\<not> signatureFails (vType tc) ins outs"
        unfolding f by (simp add: shapeFails_def)
      from pass_accepted [OF this] obtain t
        where "vType tc = Some t" "acceptedForm t ins outs" by blast
      from Run_accepted [OF this assms, of fn s] ab show False unfolding f by auto
    qed
  next
    assume "shapeFails (vType tc) f"
    from Run_shapeFails [OF this, of e s] show "\<exists>err. fst (Run e tc f s) = Inl err" by auto
  qed
next
  fix t ins outs fn
  assume a: "f = Func ins outs fn \<and> vType tc = Some t \<and> acceptedForm t ins outs"
  then have "vType tc = Some t" "acceptedForm t ins outs" by simp_all
  from Run_accepted [OF this assms, of fn s] a show "\<exists>n. fst (Run e tc f s) = Inr n" by auto
next
  fix ins outs
  assume a: "f = NilFunc ins outs \<and> \<not> shapeFails (vType tc) f \<and> cases tc \<noteq> []
              \<and> resolvedOrder e tc \<noteq> []"
  then have "\<not> signatureFails (vType tc) ins outs" by (auto simp: shapeFails_def)
  from Run_nil [OF this _ _ assms, of s] a
  show "Run e tc f s = (Inl CallOfNilFunction, [], s)" by simp
qed

theorem C7_witness:
  "isPerm (length (cases tcFour)) (randPerm (envFlag []) (length (cases tcFour)))
   \<and> shapeFails (vType tcFour) (Func [TInt] [] noop)
   \<and> Run (envFlag []) tcFour (Func [TInt] [] noop) () = (Inl (IncorrectParameter TInt (Some TString)), [], ())
   \<and> vType tcFour = Some TString \<and> acceptedForm TString [TInt, TString] [TBool]
   \<and> fst (Run (envFlag []) tcFour (Func [TInt, TString] [TBool] noop) ()) = Inr 4
   \<and> Run (envFlag []) tcFour (NilFunc [TInt, TString] [TBool]) () = (Inl CallOfNilFunction, [], ())"
proof -
  have p: "isPerm (length (cases tcFour)) (randPerm (envFlag []) (length (cases tcFour)))"
    by (simp add: envFlag_def isPerm_revPerm)
  have n: "\<not> shapeFails (vType tcFour) (NilFunc [TInt, TString] [TBool] :: unit argument)"
    "cases tcFour \<noteq> []"
    by (simp_all add: shapeFails_def signatureFails_def tcFour_def)
  have o: "resolvedOrder (envFlag []) tcFour \<noteq> []"
    by (simp add: resolvedOrder_four_random)
  have nr: "Run (envFlag []) tcFour (NilFunc [TInt, TString] [TBool]) () =
              (Inl CallOfNilFunction, [], ())"
    using n o C7_abort_iff_shape_fails [OF p, of "NilFunc [TInt, TString] [TBool]" "()"]
    by simp
  show ?thesis
    using p nr C7_abort_iff_shape_fails [OF p, of "Func [TInt] [] noop" "()"]
    by (simp add: tcFour_def shapeFails_def signatureFails_def acceptedForm_def checkIn_def
        checkOut_def envFlag_def runOrder_def revPerm_four runTest_def params_def noop_def)
qed

subsection \<open>C8: when the constructor aborts and what it builds\<close>

text \<open>
  Claim C8. \<^verbatim>\<open>Cases\<close> aborts if and only if some element is the untyped nil or
  the type of some element differs from the type of the first; otherwise it returns
  the collection whose cases are the inputs in their order, whose \<^verbatim>\<open>vType\<close> is the
  type of the first element, and whose \<^verbatim>\<open>InOrder\<close> is false.
\<close>

theorem C8_construction:
  "((\<exists>err. Cases xs = Inl err) \<longleftrightarrow>
      (None \<in> set xs \<or> (\<exists>v u. Some v \<in> set xs \<and> hd xs = Some u \<and> TypeOf v \<noteq> TypeOf u)))
   \<and> ((\<forall>err. Cases xs \<noteq> Inl err) \<longrightarrow>
        Cases xs = Inr \<lparr>cases = map ValueOf xs, vType = firstType xs, InOrder = False\<rparr>)"
proof (cases xs)
  case Nil
  then show ?thesis by (simp add: Cases_def firstType_def)
next
  case (Cons x rest)
  show ?thesis
  proof (cases x)
    case None
    then show ?thesis using Cons by (simp add: Cases_def)
  next
    case (Some u)
    let ?tc = "\<lparr>cases = [Valid u], vType = Some (TypeOf u), InOrder = False\<rparr>"
    have c: "Cases xs = CasesLoop ?tc 1 rest"
      using Cons Some by (simp add: Cases_def)
    show ?thesis
    proof (cases "\<forall>x \<in> set rest. \<exists>v. x = Some v \<and> TypeOf v = TypeOf u")
      case True
      have "CasesLoop ?tc 1 rest = Inr (?tc\<lparr>cases := cases ?tc @ map ValueOf rest\<rparr>)"
        using True by (intro CasesLoop_same) auto
      then have r: "Cases xs = Inr \<lparr>cases = map ValueOf xs, vType = firstType xs, InOrder = False\<rparr>"
        using c Cons Some by (simp add: firstType_def)
      have "\<not> (None \<in> set xs \<or> (\<exists>v u. Some v \<in> set xs \<and> hd xs = Some u \<and> TypeOf v \<noteq> TypeOf u))"
        using True Cons Some by auto
      then show ?thesis using r by simp
    next
      case False
      have "\<exists>err. CasesLoop ?tc 1 rest = Inl err"
        using False by (intro CasesLoop_other) auto
      then have l: "\<exists>err. Cases xs = Inl err" using c by simp
      have "None \<in> set xs \<or> (\<exists>v u. Some v \<in> set xs \<and> hd xs = Some u \<and> TypeOf v \<noteq> TypeOf u)"
        using False Cons Some by (metis hd_conv_nth list.sel(1) list.set_intros(2) option.exhaust)
      then show ?thesis using l by auto
    qed
  qed
qed

theorem C8_witness:
  "Cases fourCases = Inr tcFour
   \<and> Cases [Some (VInt 1), Some (VBool True)] = Inl (WrongCaseType TInt 1 TBool)
   \<and> Cases [Some (VInt 1), None] = Inl (NotAValidTestCase 1)"
  using C8_construction [of fourCases] C8_construction [of "[Some (VInt 1), Some (VBool True)]"]
  by (simp add: fourCases_def tcFour_def Cases_def firstType_def)

subsection \<open>C1: every case once, unless the order is overridden\<close>

text \<open>
  Claim C1 says that a function that never returns false is called exactly
  \<^verbatim>\<open>len(cases)\<close> times, on every index once, in every order mode, the external
  override included. With the flag \<^verbatim>\<open>1,3,1\<close> and a collection of four cases, a
  function that returns nothing is called three times: on index 1 twice, on index 3
  once, and never on 0 or 2.
\<close>

theorem C1_counterexample:
  "Cases fourCases = Inr tcFour
   \<and> Run (envFlag ''1,3,1'') tcFour (Func [TInt, TString] [] noop) () =
       (Inr 3,
        [[Valid (VInt 1), Valid (VString ''b'')],
         [Valid (VInt 3), Valid (VString ''d'')],
         [Valid (VInt 1), Valid (VString ''b'')]],
        ())"
  by (simp add: fourCases_def tcFour_def Cases_def checkIn_def checkOut_def envFlag_def
      runOrder_def ParseInt_def ParseUint_def isDigit_def digitVal_def maxUint64_def
      runTest_def params_def noop_def)

text \<open>
  Claim C1, amended. For a collection that is not empty and a function of an accepted
  form that never returns false (or returns nothing), when no external override is in
  effect and \<^verbatim>\<open>rand.Perm\<close> keeps its contract: the order is the cases in order
  or the permutation drawn, it holds every index of the cases exactly once,
  \<^verbatim>\<open>Run\<close> returns \<^verbatim>\<open>len(cases)\<close>, and the calls are the calls for that order.
\<close>

theorem C1_every_case_once:
  assumes "cases tc \<noteq> []" and "vType tc = Some t" and "acceptedForm t ins outs"
    and "outs = [TBool] \<longrightarrow> (\<forall>p s. fst (fn p s))"
    and "\<not> snd (runOrder e)"
    and "isPerm (length (cases tc)) (randPerm e (length (cases tc)))"
  shows "resolvedOrder e tc =
           (if InOrder tc then map int [0..<length (cases tc)] else randPerm e (length (cases tc)))
       \<and> isPerm (length (cases tc)) (resolvedOrder e tc)
       \<and> (\<exists>s'. Run e tc (Func ins outs fn) s =
             (Inr (int (length (cases tc))),
              callsFor (length ins = 2) (cases tc) (resolvedOrder e tc), s'))"
proof -
  let ?n = "length (cases tc)"
  let ?ps = "callsFor (length ins = 2) (cases tc) (resolvedOrder e tc)"
  have ro: "resolvedOrder e tc = (if InOrder tc then map int [0..<?n] else randPerm e ?n)"
    using assms(5) by (rule resolvedOrder_no_override)
  have pm: "isPerm ?n (resolvedOrder e tc)"
    using ro assms(6) isPerm_upt by simp
  have len: "length ?ps = ?n"
    using isPerm_length [OF pm] by (simp add: callsFor_def)
  from callUntilStop_all [OF assms(4), of ?ps s] obtain s'
    where cu: "callUntilStop fn (outs = [TBool]) ?ps s = (length ?ps, s')" by blast
  have "Run e tc (Func ins outs fn) s = (Inr (int (length ?ps)), take (length ?ps) ?ps, s')"
    using assms(1-3) isPerm_inRange [OF assms(6)] cu by (rule Run_dispatch)
  then have "Run e tc (Func ins outs fn) s = (Inr (int ?n), ?ps, s')"
    using len by simp
  then show ?thesis using ro pm by blast
qed

theorem C1_witness:
  "cases tcFour \<noteq> [] \<and> vType tcFour = Some TString \<and> acceptedForm TString [TInt, TString] []
   \<and> \<not> snd (runOrder (envFlag []))
   \<and> isPerm (length (cases tcFour)) (randPerm (envFlag []) (length (cases tcFour)))
   \<and> Run (envFlag []) tcFour (Func [TInt, TString] [] noop) () =
       (Inr 4,
        [[Valid (VInt 3), Valid (VString ''d'')],
         [Valid (VInt 2), Valid (VString ''c'')],
         [Valid (VInt 1), Valid (VString ''b'')],
         [Valid (VInt 0), Valid (VString ''a'')]],
        ())"
proof -
  have a: "cases tcFour \<noteq> []" "vType tcFour = Some TString"
    "acceptedForm TString [TInt, TString] []"
    "[] = [TBool] \<longrightarrow> (\<forall>p s. fst (noop p s))"
    "\<not> snd (runOrder (envFlag []))"
    by (simp_all add: tcFour_def acceptedForm_def runOrder_def envFlag_def)
  have p: "isPerm (length (cases tcFour)) (randPerm (envFlag []) (length (cases tcFour)))"
    by (simp add: envFlag_def isPerm_revPerm)
  show ?thesis
    using a(1,2,3,5) p C1_every_case_once [OF a p, of "()"]
    by (simp add: tcFour_def envFlag_def revPerm_four callsFor_def params_def)
qed

subsection \<open>C2: the run stops at the first false\<close>

text \<open>
  Claim C2. For a collection that is not empty and a function of an accepted form that
  returns a boolean: if, called on the resolved order, it returns false for the first
  time on its \<open>k\<close>-th call (counted from 1), then \<^verbatim>\<open>Run\<close> returns \<open>k\<close> and the
  calls made are those of the first \<open>k\<close> indices of the resolved order, so that no
  later index is called. This holds in the three order modes, \<^verbatim>\<open>rand.Perm\<close>
  keeping its contract.
\<close>

theorem C2_stop_at_first_false:
  assumes "cases tc \<noteq> []" and "vType tc = Some t" and "ins = [t] \<or> ins = [TInt, t]"
    and "isPerm (length (cases tc)) (randPerm e (length (cases tc)))"
    and "bs = outcomes fn (callsFor (length ins = 2) (cases tc) (resolvedOrder e tc)) s"
    and "1 \<le> k" and "k \<le> length bs" and "\<not> bs ! (k - 1)" and "\<forall>j < k - 1. bs ! j"
  shows "\<exists>s'. Run e tc (Func ins [TBool] fn) s =
           (Inr (int k), take k (callsFor (length ins = 2) (cases tc) (resolvedOrder e tc)), s')"
proof -
  let ?ps = "callsFor (length ins = 2) (cases tc) (resolvedOrder e tc)"
  have af: "acceptedForm t ins [TBool]" using assms(3) by (simp add: acceptedForm_def)
  have k1: "k - 1 < length ?ps" using assms(5,6,7) by (simp add: length_outcomes)
  have "\<exists>s'. callUntilStop fn True ?ps s = (Suc (k - 1), s')"
    using k1 assms(8,9) unfolding assms(5) by (rule callUntilStop_first_false)
  then obtain s' where cu: "callUntilStop fn ([TBool] = [TBool]) ?ps s = (k, s')"
    using assms(6) by auto
  have "Run e tc (Func ins [TBool] fn) s = (Inr (int k), take k ?ps, s')"
    using assms(1,2) af isPerm_inRange [OF assms(4)] cu by (rule Run_dispatch)
  then show ?thesis by blast
qed

theorem C2_witness:
  "outcomes stopThird (callsFor True (cases tcFour) (resolvedOrder (envFlag []) tcFour)) 0 =
     [True, True, False, False]
   \<and> Run (envFlag []) tcFour (Func [TInt, TString] [TBool] stopThird) 0 =
       (Inr 3,
        [[Valid (VInt 3), Valid (VString ''d'')],
         [Valid (VInt 2), Valid (VString ''c'')],
         [Valid (VInt 1), Valid (VString ''b'')]],
        3)"
proof -
  let ?bs = "outcomes stopThird (callsFor (length [TInt, TString] = 2) (cases tcFour)
               (resolvedOrder (envFlag []) tcFour)) 0"
  have bs: "?bs = [True, True, False, False]"
    by (simp add: resolvedOrder_four_random callsFor_four_random stopThird_def)
  have a: "cases tcFour \<noteq> []" "vType tcFour = Some TString"
    "[TInt, TString] = [TString] \<or> [TInt, TString] = [TInt, TString]"
    by (simp_all add: tcFour_def)
  have p: "isPerm (length (cases tcFour)) (randPerm (envFlag []) (length (cases tcFour)))"
    by (simp add: envFlag_def isPerm_revPerm)
  have k: "(1::nat) \<le> 3" "3 \<le> length ?bs" "\<not> ?bs ! (3 - 1)" "\<forall>j < 3 - 1. ?bs ! j"
    unfolding bs by (simp_all add: less_Suc_eq eval_nat_numeral)
  have "\<exists>s'. Run (envFlag []) tcFour (Func [TInt, TString] [TBool] stopThird) 0 =
          (Inr (int 3), take 3 (callsFor (length [TInt, TString] = 2) (cases tcFour)
             (resolvedOrder (envFlag []) tcFour)), s')"
    using a p refl k by (rule C2_stop_at_first_false)
  then show ?thesis using bs
    by (simp add: resolvedOrder_four_random callsFor_four_random tcFour_def checkIn_def checkOut_def
        envFlag_def runOrder_def revPerm_four runTest_def params_def stopThird_def)
qed

subsection \<open>C3: the order of the external override\<close>

text \<open>
  Claim C3 says that under a non-empty external override \<^verbatim>\<open>Run\<close> calls the function
  on exactly the parsed indices that are in range, and that the flag \<^verbatim>\<open>1,9,2\<close> on
  four cases gives the indices 1, 2 and the count 2. A function of an accepted form
  that returns false stops the run: with this flag it is called on index 1 only, and
  the count is 1.
\<close>

theorem C3_counterexample:
  "Run (envFlag ''1,9,2'') tcFour (Func [TInt, TString] [TBool] refuse) () =
     (Inr 1, [[Valid (VInt 1), Valid (VString ''b'')]], ())"
  by (simp add: tcFour_def checkIn_def checkOut_def envFlag_def
      runOrder_def ParseInt_def ParseUint_def isDigit_def digitVal_def maxUint64_def
      runTest_def params_def refuse_def)

text \<open>
  Claim C3, amended. When the flag gives a non-empty list of indices, \<^verbatim>\<open>Run\<close> calls
  the function on the indices of the list that are in range, in the order of the list,
  duplicates kept, until a call returns false; an index that is negative or too large
  is passed over and not counted. A function that never returns false (or returns
  nothing) is called on exactly these indices, and the count is their number: with the
  flag \<^verbatim>\<open>1,3,1\<close> and four cases the calls are on 1, 3, 1 and the count is 3; with
  \<^verbatim>\<open>1,9,2\<close> they are on 1, 2 and the count is 2.
\<close>

theorem C3_override_order:
  assumes "cases tc \<noteq> []" and "vType tc = Some t" and "acceptedForm t ins outs"
    and "runOrder e = (idxs, True)"
  shows "(\<forall>k s'. callUntilStop fn (outs = [TBool])
                   (callsFor (length ins = 2) (cases tc)
                      (filter (inRange (length (cases tc))) idxs)) s = (k, s') \<longrightarrow>
            Run e tc (Func ins outs fn) s =
              (Inr (int k),
               take k (callsFor (length ins = 2) (cases tc)
                         (filter (inRange (length (cases tc))) idxs)),
               s'))
       \<and> ((outs = [TBool] \<longrightarrow> (\<forall>p s. fst (fn p s))) \<longrightarrow>
            (\<exists>s'. Run e tc (Func ins outs fn) s =
               (Inr (int (length (filter (inRange (length (cases tc))) idxs))),
                callsFor (length ins = 2) (cases tc) (filter (inRange (length (cases tc))) idxs),
                s'))
          \<and> (runorder e = Some ''1,3,1'' \<and> length (cases tc) = 4 \<longrightarrow>
               (\<exists>s'. Run e tc (Func ins outs fn) s =
                  (Inr 3, callsFor (length ins = 2) (cases tc) [1, 3, 1], s')))
          \<and> (runorder e = Some ''1,9,2'' \<and> length (cases tc) = 4 \<longrightarrow>
               (\<exists>s'. Run e tc (Func ins outs fn) s =
                  (Inr 2, callsFor (length ins = 2) (cases tc) [1, 2], s'))))"
proof (intro conjI allI impI)
  fix k s'
  assume "callUntilStop fn (outs = [TBool])
            (callsFor (length ins = 2) (cases tc) (filter (inRange (length (cases tc))) idxs)) s = (k, s')"
  with assms show "Run e tc (Func ins outs fn) s =
      (Inr (int k),
       take k (callsFor (length ins = 2) (cases tc) (filter (inRange (length (cases tc))) idxs)), s')"
    by (rule Run_override)
next
  assume "outs = [TBool] \<longrightarrow> (\<forall>p s. fst (fn p s))"
  with assms show "\<exists>s'. Run e tc (Func ins outs fn) s =
           (Inr (int (length (filter (inRange (length (cases tc))) idxs))),
            callsFor (length ins = 2) (cases tc) (filter (inRange (length (cases tc))) idxs), s')"
    by (rule Run_override_all)
next
  assume nf: "outs = [TBool] \<longrightarrow> (\<forall>p s. fst (fn p s))"
    and a: "runorder e = Some ''1,3,1'' \<and> length (cases tc) = 4"
  then have "runOrder e = ([1, 3, 1], True)" by (simp add: runOrder_131)
  from Run_override_all [OF assms(1-3) this nf, of s] a
  show "\<exists>s'. Run e tc (Func ins outs fn) s =
          (Inr 3, callsFor (length ins = 2) (cases tc) [1, 3, 1], s')"
    by (simp add: inRange_def)
next
  assume nf: "outs = [TBool] \<longrightarrow> (\<forall>p s. fst (fn p s))"
    and a: "runorder e = Some ''1,9,2'' \<and> length (cases tc) = 4"
  then have "runOrder e = ([1, 9, 2], True)" by (simp add: runOrder_192)
  from Run_override_all [OF assms(1-3) this nf, of s] a
  show "\<exists>s'. Run e tc (Func ins outs fn) s =
          (Inr 2, callsFor (length ins = 2) (cases tc) [1, 2], s')"
    by (simp add: inRange_def)
qed

theorem C3_witness:
  "Run (envFlag ''1,3,1'') tcFour (Func [TInt, TString] [TBool] noop) () =
     (Inr 3,
      [[Valid (VInt 1), Valid (VString ''b'')], [Valid (VInt 3), Valid (VString ''d'')],
       [Valid (VInt 1), Valid (VString ''b'')]], ())
   \<and> Run (envFlag ''1,9,2'') tcFour (Func [TInt, TString] [TBool] noop) () =
     (Inr 2,
      [[Valid (VInt 1), Valid (VString ''b'')], [Valid (VInt 2), Valid (VString ''c'')]], ())
   \<and> Run (envFlag ''1,9,2'') tcFour (Func [TInt, TString] [TBool] stopThird) 2 =
     (Inr 1, [[Valid (VInt 1), Valid (VString ''b'')]], 3)"
proof -
  have a: "cases tcFour \<noteq> []" "vType tcFour = Some TString"
    "acceptedForm TString [TInt, TString] [TBool]"
    by (simp_all add: tcFour_def acceptedForm_def)
  have n: "[TBool] = [TBool] \<longrightarrow> (\<forall>p s. fst (noop p s))"
    by (simp add: noop_def)
  have r1: "runOrder (envFlag ''1,3,1'') = ([1, 3, 1], True)"
    by (simp add: runOrder_131 envFlag_def)
  have r2: "runOrder (envFlag ''1,9,2'') = ([1, 9, 2], True)"
    by (simp add: runOrder_192 envFlag_def)
  have b: "runorder (envFlag ''1,3,1'') = Some ''1,3,1'' \<and> length (cases tcFour) = 4"
    "runorder (envFlag ''1,9,2'') = Some ''1,9,2'' \<and> length (cases tcFour) = 4"
    by (simp_all add: envFlag_def tcFour_def)
  have c: "callUntilStop stopThird ([TBool] = [TBool])
             (callsFor (length [TInt, TString] = 2) (cases tcFour)
               (filter (inRange (length (cases tcFour))) [1, 9, 2])) 2 = (1, 3)"
    by (simp add: callsFor_def inRange_def tcFour_def stopThird_def)
  show ?thesis
    using C3_override_order [OF a r1, of noop "()"] C3_override_order [OF a r2, of noop "()"]
      C3_override_order [OF a r2, of stopThird 2] n b c
    by (simp add: callsFor_def params_def tcFour_def inRange_def)
qed

subsection \<open>C4: the cases in order\<close>

text \<open>
  Claim C4 says that with \<^verbatim>\<open>InOrder\<close> set and no external override the indices
  delivered are exactly \<open>0, 1, \<dots>, n - 1\<close>. A function of an accepted form that
  returns false stops the run: on four cases it is called on index 0 only.
\<close>

theorem C4_counterexample:
  "InOrder (tcFour\<lparr>InOrder := True\<rparr>) \<and> \<not> snd (runOrder (envFlag []))
   \<and> Run (envFlag []) (tcFour\<lparr>InOrder := True\<rparr>) (Func [TInt, TString] [TBool] refuse) () =
       (Inr 1, [[Valid (VInt 0), Valid (VString ''a'')]], ())"
  by (simp add: tcFour_def checkIn_def checkOut_def envFlag_def runOrder_def
      runTest_def params_def refuse_def)

text \<open>
  Claim C4, amended. With \<^verbatim>\<open>InOrder\<close> set and no external override in effect, a
  function of an accepted form is called on the indices \<open>0, 1, \<dots>\<close> in this order,
  each with its case, until a call returns false; a function that never returns false
  (or returns nothing) is called on exactly \<open>0, 1, \<dots>, n - 1\<close>, where \<open>n\<close> is the
  number of cases, and \<^verbatim>\<open>Run\<close> returns \<open>n\<close>.
\<close>

theorem C4_in_order:
  assumes "vType tc = Some t" and "acceptedForm t ins outs" and "InOrder tc"
    and "\<not> snd (runOrder e)"
  shows "(\<forall>k s'. callUntilStop fn (outs = [TBool])
                   (map (\<lambda>i. params (length ins = 2) (int i) (cases tc ! i))
                      [0..<length (cases tc)]) s = (k, s') \<longrightarrow>
            Run e tc (Func ins outs fn) s =
              (Inr (int k),
               take k (map (\<lambda>i. params (length ins = 2) (int i) (cases tc ! i))
                         [0..<length (cases tc)]),
               s'))
       \<and> ((outs = [TBool] \<longrightarrow> (\<forall>p s. fst (fn p s))) \<longrightarrow>
            (\<exists>s'. Run e tc (Func ins outs fn) s =
               (Inr (int (length (cases tc))),
                map (\<lambda>i. params (length ins = 2) (int i) (cases tc ! i)) [0..<length (cases tc)],
                s')))"
proof -
  let ?n = "length (cases tc)"
  let ?ps = "map (\<lambda>i. params (length ins = 2) (int i) (cases tc ! i)) [0..<?n]"
  have ro: "resolvedOrder e tc = map int [0..<?n]"
    using resolvedOrder_no_override [OF assms(4), of tc] assms(3) by simp
  have ps: "callsFor (length ins = 2) (cases tc) (resolvedOrder e tc) = ?ps"
    unfolding ro by (simp add: callsFor_def comp_def)
  have gen: "Run e tc (Func ins outs fn) s = (Inr (int k), take k ?ps, s')"
    if cu: "callUntilStop fn (outs = [TBool]) ?ps s = (k, s')" for k s'
  proof (cases "cases tc = []")
    case True
    then show ?thesis using cu assms(1) accepted_checks [OF assms(2)] by auto
  next
    case False
    have cu': "callUntilStop fn (outs = [TBool])
                 (callsFor (length ins = 2) (cases tc) (resolvedOrder e tc)) s = (k, s')"
      using cu by (simp only: ps)
    have "Run e tc (Func ins outs fn) s =
            (Inr (int k), take k (callsFor (length ins = 2) (cases tc) (resolvedOrder e tc)), s')"
      using False assms(1,2) _ cu' by (rule Run_dispatch_gen) (simp add: assms(3))
    then show ?thesis by (simp only: ps)
  qed
  have all: "\<exists>s'. Run e tc (Func ins outs fn) s = (Inr (int ?n), ?ps, s')"
    if nf: "outs = [TBool] \<longrightarrow> (\<forall>p s. fst (fn p s))"
  proof -
    from callUntilStop_all [OF nf, of ?ps s] obtain s'
      where "callUntilStop fn (outs = [TBool]) ?ps s = (length ?ps, s')" by blast
    from gen [OF this] show ?thesis by simp
  qed
  show ?thesis using gen all by blast
qed

theorem C4_witness:
  "Run (envFlag []) (tcFour\<lparr>InOrder := True\<rparr>) (Func [TInt, TString] [] noop) () =
     (Inr 4,
      [[Valid (VInt 0), Valid (VString ''a'')], [Valid (VInt 1), Valid (VString ''b'')],
       [Valid (VInt 2), Valid (VString ''c'')], [Valid (VInt 3), Valid (VString ''d'')]], ())"
proof -
  have a: "vType (tcFour\<lparr>InOrder := True\<rparr>) = Some TString"
    "acceptedForm TString [TInt, TString] []" "InOrder (tcFour\<lparr>InOrder := True\<rparr>)"
    "\<not> snd (runOrder (envFlag []))"
    by (simp_all add: tcFour_def acceptedForm_def runOrder_def envFlag_def)
  have n: "[] = [TBool] \<longrightarrow> (\<forall>p s. fst (noop p s))" by simp
  have u: "[0..<4] = [0, 1, 2, 3]" by (simp add: eval_nat_numeral)
  have "length (cases (tcFour\<lparr>InOrder := True\<rparr>)) = 4" by (simp add: tcFour_def)
  then show ?thesis
    using C4_in_order [OF a, of noop "()"] n by (simp add: u params_def) (simp add: tcFour_def)
qed

subsection \<open>C5: the precedence of the order sources\<close>

text \<open>
  Claim C5. \<^verbatim>\<open>runOrder\<close> returns the indices of the tokens of the flag that parse,
  the others dropped, and reports an override exactly when there is one such index.
  \<^verbatim>\<open>Run\<close> calls the function along the order of the specification: the parsed
  list when it is not empty, whatever \<^verbatim>\<open>InOrder\<close> is, and otherwise (flag absent,
  empty, or without a token that parses) the cases in order when \<^verbatim>\<open>InOrder\<close> is
  set and the permutation drawn when it is not.
\<close>

theorem C5_order_precedence:
  assumes "cases tc \<noteq> []" and "vType tc = Some t" and "acceptedForm t ins outs"
    and "isPerm (length (cases tc)) (randPerm e (length (cases tc)))"
    and "callUntilStop fn (outs = [TBool])
           (callsFor (length ins = 2) (cases tc) (specOrder e tc)) s = (k, s')"
  shows "runOrder e = (specParsed (runorder e), specParsed (runorder e) \<noteq> [])
       \<and> specParsed None = [] \<and> specParsed (Some []) = []
       \<and> Run e tc (Func ins outs fn) s =
           (Inr (int k), take k (callsFor (length ins = 2) (cases tc) (specOrder e tc)), s')
       \<and> (specParsed (runorder e) \<noteq> [] \<longrightarrow>
            Run e (tc\<lparr>InOrder := b\<rparr>) (Func ins outs fn) s = Run e tc (Func ins outs fn) s)"
proof (intro conjI impI)
  show "runOrder e = (specParsed (runorder e), specParsed (runorder e) \<noteq> [])"
    by (rule runOrder_specParsed)
next
  show "specParsed None = []" by (simp add: specParsed_def)
next
  show "specParsed (Some []) = []" by (simp add: specParsed_def ParseInt_def)
next
  have cu: "callUntilStop fn (outs = [TBool])
              (callsFor (length ins = 2) (cases tc) (resolvedOrder e tc)) s = (k, s')"
    using assms(5) by (simp add: resolvedOrder_specOrder)
  have "Run e tc (Func ins outs fn) s =
          (Inr (int k), take k (callsFor (length ins = 2) (cases tc) (resolvedOrder e tc)), s')"
    using assms(1-3) isPerm_inRange [OF assms(4)] cu by (rule Run_dispatch)
  then show "Run e tc (Func ins outs fn) s =
          (Inr (int k), take k (callsFor (length ins = 2) (cases tc) (specOrder e tc)), s')"
    by (simp add: resolvedOrder_specOrder)
next
  assume "specParsed (runorder e) \<noteq> []"
  then have "runOrder e = (specParsed (runorder e), True)"
    using runOrder_specParsed [of e] by simp
  then show "Run e (tc\<lparr>InOrder := b\<rparr>) (Func ins outs fn) s = Run e tc (Func ins outs fn) s"
    by (simp split: sum.split)
qed

theorem C5_witness:
  "runOrder (envFlag ''x,2,,+0,-1'') = ([2, 0, - 1], True)
   \<and> Run (envFlag ''x,2,,+0,-1'') (tcFour\<lparr>InOrder := True\<rparr>) (Func [TInt, TString] [] noop) () =
       (Inr 2,
        [[Valid (VInt 2), Valid (VString ''c'')], [Valid (VInt 0), Valid (VString ''a'')]], ())
   \<and> Run (envFlag ''x,2,,+0,-1'') (tcFour\<lparr>InOrder := False\<rparr>) (Func [TInt, TString] [] noop) () =
       Run (envFlag ''x,2,,+0,-1'') (tcFour\<lparr>InOrder := True\<rparr>) (Func [TInt, TString] [] noop) ()"
proof -
  let ?e = "envFlag ''x,2,,+0,-1''"
  let ?tc = "tcFour\<lparr>InOrder := True\<rparr>"
  have sp: "specParsed (runorder ?e) = [2, 0, - 1]"
    by (simp add: envFlag_def specParsed_mixed)
  have so: "specOrder ?e ?tc = [2, 0]"
    by (simp add: specOrder_def sp inRange_def tcFour_def)
  have cf: "callsFor (length [TInt, TString] = 2) (cases ?tc) [2, 0] =
      [[Valid (VInt 2), Valid (VString ''c'')], [Valid (VInt 0), Valid (VString ''a'')]]"
    by (simp add: callsFor_def params_def tcFour_def)
  have a: "cases ?tc \<noteq> []" "vType ?tc = Some TString" "acceptedForm TString [TInt, TString] []"
    by (simp_all add: tcFour_def acceptedForm_def)
  have p: "isPerm (length (cases ?tc)) (randPerm ?e (length (cases ?tc)))"
    by (simp add: envFlag_def isPerm_revPerm)
  have cu: "callUntilStop noop ([] = [TBool]) (callsFor (length [TInt, TString] = 2) (cases ?tc)
              (specOrder ?e ?tc)) () = (2, ())"
    unfolding so cf by (simp add: noop_def)
  show ?thesis
    using C5_order_precedence [OF a p cu, of False]
    unfolding so cf sp by simp
qed

subsection \<open>C10: the index and the case of a call belong together\<close>

text \<open>
  Claim C10. In every order mode, every call that \<^verbatim>\<open>Run\<close> makes to a function of
  two parameters passes an index \<open>i\<close> of the collection and, with it, the case at
  position \<open>i\<close>.
\<close>

theorem C10_consistent_pair:
  assumes "length ins = 2"
  shows "\<forall>p \<in> set (fst (snd (Run e tc (Func ins outs fn) s))).
           \<exists>i. 0 \<le> i \<and> i < int (length (cases tc)) \<and> p = [Valid (VInt i), cases tc ! nat i]"
proof -
  from Run_calls [of tc e ins outs fn s] obtain order
    where o: "\<forall>idx \<in> set order. inRange (length (cases tc)) idx"
      and c: "fst (snd (Run e tc (Func ins outs fn) s)) = callsFor (length ins = 2) (cases tc) order"
    by blast
  show ?thesis
    unfolding c using o assms by (auto simp: callsFor_def params_def inRange_def)
qed

theorem C10_witness:
  "length [TInt, TString] = 2
   \<and> fst (snd (Run (envFlag ''3,7,0'') tcFour (Func [TInt, TString] [] noop) ())) =
       [[Valid (VInt 3), Valid (VString ''d'')], [Valid (VInt 0), Valid (VString ''a'')]]
   \<and> (\<exists>i. 0 \<le> i \<and> i < int (length (cases tcFour))
          \<and> [Valid (VInt 3), Valid (VString ''d'')] = [Valid (VInt i), cases tcFour ! nat i])"
proof -
  have l: "length [TInt, TString] = 2" by simp
  have r: "fst (snd (Run (envFlag ''3,7,0'') tcFour (Func [TInt, TString] [] noop) ())) =
       [[Valid (VInt 3), Valid (VString ''d'')], [Valid (VInt 0), Valid (VString ''a'')]]"
    by (simp add: tcFour_def checkIn_def checkOut_def envFlag_def
      runOrder_def ParseInt_def ParseUint_def isDigit_def digitVal_def maxUint64_def
      runTest_def params_def noop_def)
  from C10_consistent_pair [OF l, of "envFlag ''3,7,0''" tcFour "[]" noop "()"]
  have "\<exists>i. 0 \<le> i \<and> i < int (length (cases tcFour))
          \<and> [Valid (VInt 3), Valid (VString ''d'')] = [Valid (VInt i), cases tcFour ! nat i]"
    unfolding r by simp
  then show ?thesis using r by simp
qed

end
